theory Spec2Isabelle
  imports Complex_Main
begin

section \<open>JavaScript values used by the validation layer\<close>

text \<open>
  The module \<^verbatim>\<open>src/utils/validationUtils.js\<close> validates raw form input. A raw input is
  a string, a number, \<^verbatim>\<open>null\<close> or \<^verbatim>\<open>undefined\<close> (the JSDoc type of every
  \<^verbatim>\<open>value\<close> parameter is \<^verbatim>\<open>string|number\<close>, and the code tests for the other two).

  A JavaScript Number is an IEEE binary64 value. A finite one is modelled by the rational
  it denotes; \<open>round64\<close> below rounds an arbitrary rational to the nearest binary64 value
  (ties to even), and every arithmetic result and every parsed literal goes through it.
  The two zeros are kept apart: \<open>Fin 0\<close> is \<open>+0\<close> and \<open>NZero\<close> is \<open>-0\<close>, which a negative
  literal of value zero and a negative value too small to be represented parse to. The
  comparisons treat them alike and Number-to-String prints both as \<^verbatim>\<open>0\<close>.

  A string is a list of code units; the model covers the code units below 256.
\<close>

datatype jsnum = NaN | NInf | PInf | NZero | Fin rat

datatype raw = JUndefined | JNull | JStr string | JNum jsnum

definition the_default :: "'a \<Rightarrow> 'a option \<Rightarrow> 'a" where
  \<comment> \<open>a default parameter or destructuring default: used when the argument is undefined\<close>
  "the_default d x = (case x of None \<Rightarrow> d | Some y \<Rightarrow> y)"

subsection \<open>Rounding to binary64\<close>

definition round_half_even :: "rat \<Rightarrow> int" where
  "round_half_even q =
     (let f = \<lfloor>q\<rfloor>; r = q - of_int f
      in if r < 1 / 2 then f else if 1 / 2 < r then f + 1 else if even f then f else f + 1)"

text \<open>\<open>binexp n q\<close> is the binary exponent \<open>\<lfloor>log\<^sub>2 q\<rfloor>\<close> of a positive \<open>q\<close>, found in at most
  \<open>n\<close> halvings or doublings.\<close>

fun binexp :: "nat \<Rightarrow> rat \<Rightarrow> int" where
  "binexp 0 q = 0"
| "binexp (Suc n) q =
     (if 2 \<le> q then binexp n (q / 2) + 1
      else if q < 1 then binexp n (q * 2) - 1
      else 0)"

text \<open>
  The binary64 value nearest to \<open>q\<close>: 53 significant bits, least exponent \<open>-1022\<close> (below
  it the spacing stays \<open>2\<^sup>-\<^sup>1\<^sup>0\<^sup>7\<^sup>4\<close>, the subnormal range), a result that reaches
  \<open>2\<^sup>1\<^sup>0\<^sup>2\<^sup>4\<close> is an infinity, and a negative value that rounds to zero is \<open>-0\<close>.
\<close>

definition round64 :: "rat \<Rightarrow> jsnum" where
  "round64 q =
     (let a = \<bar>q\<bar>;
          e = max (binexp 1100 a) (- 1022);
          u = 2 powi (e - 52);
          r = of_int (round_half_even (a / u)) * u
      in if 2 powi 1024 \<le> r then (if q < 0 then NInf else PInf)
         else if q < 0 \<and> r = 0 then NZero
         else Fin (sgn q * r))"

definition is_double :: "rat \<Rightarrow> bool" where
  \<comment> \<open>the rationals that are binary64 values\<close>
  "is_double q =
     (q = 0 \<or> (\<exists>m e. \<bar>q\<bar> = of_int m * 2 powi e \<and> 0 < m \<and> m < 2 ^ 53 \<and> - 1074 \<le> e \<and> e \<le> 971))"

subsection \<open>Operators on Numbers\<close>

definition isNaN :: "jsnum \<Rightarrow> bool" where
  "isNaN x = (x = NaN)"

text \<open>\<^verbatim>\<open>a < b\<close> on Numbers: false whenever an operand is NaN.\<close>

fun js_lt :: "jsnum \<Rightarrow> jsnum \<Rightarrow> bool" where
  "js_lt NaN _ = False"
| "js_lt _ NaN = False"
| "js_lt PInf _ = False"
| "js_lt _ NInf = False"
| "js_lt NInf _ = True"
| "js_lt _ PInf = True"
| "js_lt NZero NZero = False"
| "js_lt NZero (Fin b) = (0 < b)"
| "js_lt (Fin a) NZero = (a < 0)"
| "js_lt (Fin a) (Fin b) = (a < b)"

definition js_gt :: "jsnum \<Rightarrow> jsnum \<Rightarrow> bool" where
  "js_gt a b = js_lt b a"

text \<open>Unary minus on Numbers; it is how a parsed literal takes its sign.\<close>

fun js_neg :: "jsnum \<Rightarrow> jsnum" where
  "js_neg NaN = NaN"
| "js_neg NInf = PInf"
| "js_neg PInf = NInf"
| "js_neg NZero = Fin 0"
| "js_neg (Fin x) = (if x = 0 then NZero else Fin (- x))"

text \<open>
  \<^verbatim>\<open>a + b\<close> on Numbers. The sum of two zeros is \<open>-0\<close> only when both are, and an exact
  sum of zero is \<open>+0\<close>.
\<close>

fun js_add :: "jsnum \<Rightarrow> jsnum \<Rightarrow> jsnum" where
  "js_add NaN _ = NaN"
| "js_add _ NaN = NaN"
| "js_add PInf NInf = NaN"
| "js_add NInf PInf = NaN"
| "js_add PInf _ = PInf"
| "js_add _ PInf = PInf"
| "js_add NInf _ = NInf"
| "js_add _ NInf = NInf"
| "js_add NZero NZero = NZero"
| "js_add NZero (Fin b) = round64 b"
| "js_add (Fin a) NZero = round64 a"
| "js_add (Fin a) (Fin b) = round64 (a + b)"

subsection \<open>Number to String\<close>

text \<open>
  \<^verbatim>\<open>Number::toString\<close> in radix 10 (ECMAScript 6.1.6.1.20). For a positive \<open>x\<close> it takes
  integers \<open>n\<close>, \<open>k\<close>, \<open>s\<close> with \<open>k \<ge> 1\<close>, \<open>10\<^sup>k\<^sup>-\<^sup>1 \<le> s < 10\<^sup>k\<close>, the Number nearest to
  \<open>s \<times> 10\<^sup>n\<^sup>-\<^sup>k\<close> being \<open>x\<close>, and \<open>k\<close> as small as possible, and prints the digits of \<open>s\<close>
  in one of four layouts chosen by \<open>n\<close>.
\<close>

definition digitChar :: "int \<Rightarrow> char" where
  "digitChar d = ''0123456789'' ! nat d"

function digits10 :: "int \<Rightarrow> string" where
  "digits10 n =
     (if n < 10 then [digitChar n]
      else digits10 (n div 10) @ [digitChar (n mod 10)])"
  by pat_completeness auto
termination
  by (relation "measure nat") auto

declare digits10.simps [simp del]

text \<open>\<open>decexp f q\<close> is the \<open>n\<close> with \<open>10\<^sup>n\<^sup>-\<^sup>1 \<le> q < 10\<^sup>n\<close> for a positive \<open>q\<close>.\<close>

fun decexp :: "nat \<Rightarrow> rat \<Rightarrow> int" where
  "decexp 0 q = 0"
| "decexp (Suc f) q =
     (if 1 \<le> q then decexp f (q / 10) + 1
      else if q < 1 / 10 then decexp f (q * 10) - 1
      else 0)"

text \<open>
  The two \<open>k\<close>-digit decimals around \<open>x\<close> as pairs \<open>(s, n)\<close>, the nearer one first and, when
  they are equally near, the one with the even \<open>s\<close> first.
\<close>

definition candidates :: "rat \<Rightarrow> int \<Rightarrow> nat \<Rightarrow> (int \<times> int) list" where
  "candidates x n k =
     (let t = x * 10 powi (int k - n);
          lo = \<lfloor>t\<rfloor>;
          hi = lo + 1;
          c1 = (lo, n);
          c2 = (if hi = 10 ^ k then (10 ^ (k - 1), n + 1) else (hi, n))
      in if t - of_int lo < of_int hi - t \<or> (t - of_int lo = of_int hi - t \<and> even lo)
         then [c1, c2] else [c2, c1])"

definition roundtrips :: "rat \<Rightarrow> int \<times> int \<Rightarrow> bool" where
  "roundtrips x c = (case c of (s, n) \<Rightarrow>
     0 < s \<and> round64 (of_int s * 10 powi (n - int (length (digits10 s)))) = Fin x)"

text \<open>The full decimal expansion of \<open>x\<close>; it is finite for every binary64 value.\<close>

fun exactDigits :: "nat \<Rightarrow> rat \<Rightarrow> int \<Rightarrow> int \<times> int" where
  "exactDigits 0 x j = (\<lfloor>x\<rfloor>, j)"
| "exactDigits (Suc f) x j =
     (if of_int \<lfloor>x\<rfloor> = x then (\<lfloor>x\<rfloor>, j) else exactDigits f (x * 10) (j + 1))"

definition exactCandidate :: "rat \<Rightarrow> int \<times> int" where
  "exactCandidate x =
     (case exactDigits 1100 x 0 of (s, j) \<Rightarrow> (s, int (length (digits10 s)) - j))"

text \<open>
  The shortest digit string that reads back as \<open>x\<close>: the first candidate, by increasing
  length, whose value rounds to \<open>x\<close>. Seventeen digits always suffice for a binary64 value;
  the full expansion closes the search.
\<close>

definition shortest :: "rat \<Rightarrow> int \<times> int" where
  "shortest x =
     (let n = decexp 400 x
      in case find (roundtrips x)
                (concat (map (candidates x n) [1 ..< 18]) @ [exactCandidate x]) of
           Some c \<Rightarrow> c
         | None \<Rightarrow> (0, 1))"

definition formatDigits :: "int \<times> int \<Rightarrow> string" where
  "formatDigits c = (case c of (s, n) \<Rightarrow>
     (let ds = digits10 s; k = int (length ds)
      in if k \<le> n \<and> n \<le> 21 then ds @ replicate (nat (n - k)) CHR ''0''
         else if 0 < n \<and> n \<le> 21 then take (nat n) ds @ ''.'' @ drop (nat n) ds
         else if - 6 < n \<and> n \<le> 0 then ''0.'' @ replicate (nat (- n)) CHR ''0'' @ ds
         else (let e = n - 1;
                   es = (if e < 0 then ''-'' else ''+'') @ digits10 \<bar>e\<bar>
               in if k = 1 then ds @ ''e'' @ es
                  else [hd ds] @ ''.'' @ tl ds @ ''e'' @ es)))"

fun numberToString :: "jsnum \<Rightarrow> string" where
  "numberToString NaN = ''NaN''"
| "numberToString PInf = ''Infinity''"
| "numberToString NInf = ''-Infinity''"
| "numberToString NZero = ''0''"
| "numberToString (Fin x) =
     (if x = 0 then ''0''
      else if x < 0 then ''-'' @ formatDigits (shortest (- x))
      else formatDigits (shortest x))"

text \<open>The abstract operation \<^verbatim>\<open>ToString\<close> on a raw input.\<close>

fun ToString :: "raw \<Rightarrow> string" where
  "ToString JUndefined = ''undefined''"
| "ToString JNull = ''null''"
| "ToString (JStr s) = s"
| "ToString (JNum x) = numberToString x"

subsection \<open>The built-ins \<^verbatim>\<open>parseInt\<close> and \<^verbatim>\<open>parseFloat\<close>\<close>

definition isWhiteSpace :: "char \<Rightarrow> bool" where
  \<comment> \<open>TAB, LF, VT, FF, CR, SP, NBSP: the white space and line terminators below 256\<close>
  "isWhiteSpace c =
     (c \<in> set [CHR 0x09, CHR 0x0A, CHR 0x0B, CHR 0x0C, CHR 0x0D, CHR 0x20, CHR 0xA0])"

definition isDigit :: "char \<Rightarrow> bool" where
  "isDigit c = (48 \<le> (of_char c :: int) \<and> (of_char c :: int) \<le> 57)"

definition digitVal :: "char \<Rightarrow> int" where
  "digitVal c = of_char c - 48"

definition digitsVal :: "string \<Rightarrow> int" where
  "digitsVal ds = foldl (\<lambda>a c. 10 * a + digitVal c) 0 ds"

definition trimStart :: "string \<Rightarrow> string" where
  "trimStart s = dropWhile isWhiteSpace s"

text \<open>An optional leading sign, removed; \<open>withSign\<close> applies it to the value read.\<close>

fun splitSign :: "string \<Rightarrow> rat \<times> string" where
  "splitSign [] = (1, [])"
| "splitSign (c # cs) =
     (if c = CHR ''-'' then (- 1, cs) else if c = CHR ''+'' then (1, cs) else (1, c # cs))"

definition withSign :: "rat \<Rightarrow> jsnum \<Rightarrow> jsnum" where
  "withSign sign x = (if sign < 0 then js_neg x else x)"

text \<open>
  \<^verbatim>\<open>parseInt(string, 10)\<close>: leading white space is skipped, a sign is read, then the
  longest run of decimal digits; no digit gives NaN. Whatever follows the digits is
  ignored.
\<close>

definition parseInt10_str :: "string \<Rightarrow> jsnum" where
  "parseInt10_str inputString =
     (let (sign, S) = splitSign (trimStart inputString);
          Z = takeWhile isDigit S
      in if Z = [] then NaN else withSign sign (round64 (of_int (digitsVal Z))))"

text \<open>The exponent part of a decimal literal at the head of a string; 0 when there is none.\<close>

fun exponentPart :: "string \<Rightarrow> int" where
  "exponentPart [] = 0"
| "exponentPart (c # cs) =
     (if c = CHR ''e'' \<or> c = CHR ''E'' then
        (let (sg, r) = splitSign cs; ds = takeWhile isDigit r
         in if ds = [] then 0 else (if sg < 0 then - digitsVal ds else digitsVal ds))
      else 0)"

text \<open>
  The value of the longest prefix that is an unsigned decimal literal
  (\<^verbatim>\<open>digits . digits? exp?\<close>, \<^verbatim>\<open>. digits exp?\<close> or \<^verbatim>\<open>digits exp?\<close>), if there is one.
\<close>

definition strUnsigned :: "string \<Rightarrow> rat option" where
  "strUnsigned S =
     (let ip = takeWhile isDigit S; r1 = dropWhile isDigit S
      in if r1 \<noteq> [] \<and> hd r1 = CHR ''.'' then
           (let fp = takeWhile isDigit (tl r1); r2 = dropWhile isDigit (tl r1)
            in if ip = [] \<and> fp = [] then None
               else Some (of_int (digitsVal (ip @ fp))
                          * 10 powi (exponentPart r2 - int (length fp))))
         else if ip = [] then None
         else Some (of_int (digitsVal ip) * 10 powi (exponentPart r1)))"

text \<open>
  \<^verbatim>\<open>parseFloat(string)\<close>: leading white space is skipped, then the longest prefix that is
  a \<^verbatim>\<open>StrDecimalLiteral\<close> is read (a sign, then \<^verbatim>\<open>Infinity\<close> or an unsigned decimal
  literal); no such prefix gives NaN.
\<close>

definition parseFloat_str :: "string \<Rightarrow> jsnum" where
  "parseFloat_str inputString =
     (let (sign, S) = splitSign (trimStart inputString)
      in if take 8 S = ''Infinity'' then withSign sign PInf
         else (case strUnsigned S of None \<Rightarrow> NaN | Some m \<Rightarrow> withSign sign (round64 m)))"

text \<open>
  Both built-ins first convert their argument with \<^verbatim>\<open>ToString\<close>. Where the standard
  lets an implementation approximate a literal of more than 20 significant digits, the
  model takes the literal's exact value before rounding.
\<close>

definition parseFloat :: "raw \<Rightarrow> jsnum" where
  "parseFloat v = parseFloat_str (ToString v)"

definition parseInt10 :: "raw \<Rightarrow> jsnum" where
  "parseInt10 v = parseInt10_str (ToString v)"

section \<open>The validators of \<^verbatim>\<open>validationUtils.js\<close>\<close>

text \<open>
  The results are objects with the fields \<^verbatim>\<open>isValid\<close>, \<^verbatim>\<open>value\<close> (written \<open>val\<close>) and
  \<^verbatim>\<open>error\<close>; \<^verbatim>\<open>validateBudget\<close> returns the first two only, \<^verbatim>\<open>validatePartCosts\<close> returns
  \<^verbatim>\<open>isValid\<close> and \<^verbatim>\<open>values\<close> (written \<open>vals\<close>). A \<^verbatim>\<open>null\<close> field is \<open>None\<close>.
\<close>

record validity =
  isValid :: bool

record 'v valued = validity +
  val :: 'v

record 'v ValidationResult = "'v valued" +
  error :: "string option"

text \<open>\<^verbatim>\<open>validateCurrency(value, fieldName = 'Value')\<close>\<close>

definition validateCurrency :: "raw \<Rightarrow> string option \<Rightarrow> jsnum ValidationResult" where
  "validateCurrency v fieldName' =
     (let fieldName = the_default ''Value'' fieldName'
      in if v = JStr '''' \<or> v = JNull \<or> v = JUndefined then
           \<lparr>isValid = True, val = Fin 0, error = None\<rparr>
         else
           (let parsed = parseFloat v
            in if isNaN parsed then
                 \<lparr>isValid = False, val = Fin 0,
                  error = Some (fieldName @ '' must be a valid number'')\<rparr>
               else if js_lt parsed (Fin 0) then
                 \<lparr>isValid = False, val = Fin 0,
                  error = Some (fieldName @ '' cannot be negative'')\<rparr>
               else if js_gt parsed (Fin 1000000000) then
                 \<lparr>isValid = False, val = Fin 0,
                  error = Some (fieldName @ '' exceeds maximum allowed value'')\<rparr>
               else \<lparr>isValid = True, val = parsed, error = None\<rparr>))"

text \<open>
  \<^verbatim>\<open>validatePositiveInteger(value, fieldName = 'Value', options = {})\<close> with
  \<^verbatim>\<open>const { min = 0, max = Infinity, allowEmpty = true } = options\<close>. An absent option
  is \<open>None\<close>. The result's value is a Number or \<^verbatim>\<open>null\<close> (\<open>None\<close>).

  \<^verbatim>\<open>max.toLocaleString()\<close> formats by the host's locale; the formatter is the
  parameter \<open>toLocaleString\<close>.
\<close>

record ValidationOptions =
  opt_min :: "jsnum option"
  opt_max :: "jsnum option"
  allowEmpty :: "bool option"

definition validatePositiveInteger ::
  "(jsnum \<Rightarrow> string) \<Rightarrow> raw \<Rightarrow> string option \<Rightarrow> ValidationOptions option
     \<Rightarrow> jsnum option ValidationResult" where
  "validatePositiveInteger toLocaleString v fieldName' options' =
     (let fieldName = the_default ''Value'' fieldName';
          options = the_default \<lparr>opt_min = None, opt_max = None, allowEmpty = None\<rparr> options';
          mn = the_default (Fin 0) (opt_min options);
          mx = the_default PInf (opt_max options);
          allowE = the_default True (allowEmpty options)
      in if v = JStr '''' \<or> v = JNull \<or> v = JUndefined then
           (if allowE then \<lparr>isValid = True, val = None, error = None\<rparr>
            else \<lparr>isValid = False, val = None, error = Some (fieldName @ '' is required'')\<rparr>)
         else
           (let parsed = parseInt10 v
            in if isNaN parsed then
                 \<lparr>isValid = False, val = None,
                  error = Some (fieldName @ '' must be a valid number'')\<rparr>
               else if js_lt parsed mn then
                 \<lparr>isValid = False, val = None,
                  error = Some (fieldName @ '' must be at least '' @ numberToString mn)\<rparr>
               else if js_gt parsed mx then
                 \<lparr>isValid = False, val = None,
                  error = Some (fieldName @ '' must be at most '' @ toLocaleString mx)\<rparr>
               else \<lparr>isValid = True, val = Some parsed, error = None\<rparr>))"

text \<open>
  \<^verbatim>\<open>validateYear(value, fieldName = 'Year')\<close>. The year read from the clock,
  \<^verbatim>\<open>new Date().getFullYear()\<close>, is the parameter \<open>currentYear\<close>.
\<close>

definition validateYear ::
  "(jsnum \<Rightarrow> string) \<Rightarrow> jsnum \<Rightarrow> raw \<Rightarrow> string option \<Rightarrow> jsnum option ValidationResult" where
  "validateYear toLocaleString currentYear v fieldName' =
     validatePositiveInteger toLocaleString v (Some (the_default ''Year'' fieldName'))
       (Some \<lparr>opt_min = Some (Fin 1900), opt_max = Some (js_add currentYear (Fin 2)),
              allowEmpty = Some True\<rparr>)"

text \<open>\<^verbatim>\<open>validateOdometer(value, fieldName = 'Odometer')\<close>\<close>

definition validateOdometer ::
  "(jsnum \<Rightarrow> string) \<Rightarrow> raw \<Rightarrow> string option \<Rightarrow> jsnum option ValidationResult" where
  "validateOdometer toLocaleString v fieldName' =
     validatePositiveInteger toLocaleString v (Some (the_default ''Odometer'' fieldName'))
       (Some \<lparr>opt_min = Some (Fin 0), opt_max = Some (Fin 10000000), allowEmpty = Some True\<rparr>)"

subsection \<open>The composite validators and the notification sink\<close>

text \<open>
  The toast object is used through \<^verbatim>\<open>toast?.warning(message)\<close> only. A sink is
  modelled by the list of arguments its \<^verbatim>\<open>warning\<close> method has received, oldest first;
  an argument is a string or \<^verbatim>\<open>null\<close>, as the \<^verbatim>\<open>error\<close> field is. An absent toast
  (\<^verbatim>\<open>null\<close> or \<^verbatim>\<open>undefined\<close>) is \<open>None\<close>, and the optional call then does nothing.
\<close>

type_synonym toast = "string option list"

definition optWarning :: "toast option \<Rightarrow> string option \<Rightarrow> toast option" where
  "optWarning t msg = (case t of None \<Rightarrow> None | Some received \<Rightarrow> Some (received @ [msg]))"

record 'a costs =
  price :: 'a
  shipping :: 'a
  duties :: 'a

record CostBundle = "jsnum costs" +
  total :: jsnum

record PartCostsResult = validity +
  vals :: "CostBundle option"

text \<open>
  \<^verbatim>\<open>validatePartCosts(costs, toast)\<close>. The argument \<^verbatim>\<open>costs\<close> is an object (its JSDoc type);
  the code reads its properties \<^verbatim>\<open>price\<close>, \<^verbatim>\<open>shipping\<close> and \<^verbatim>\<open>duties\<close>, an absent one being
  \<^verbatim>\<open>undefined\<close>. The result's field \<^verbatim>\<open>values\<close> is \<open>vals\<close>.
\<close>

definition validatePartCosts ::
  "raw costs \<Rightarrow> toast option \<Rightarrow> PartCostsResult \<times> toast option" where
  "validatePartCosts c t =
     (let priceResult = validateCurrency (price c) (Some ''Price'')
      in if \<not> isValid priceResult then
           (\<lparr>isValid = False, vals = None\<rparr>, optWarning t (error priceResult))
         else
           (let shippingResult = validateCurrency (shipping c) (Some ''Shipping'')
            in if \<not> isValid shippingResult then
                 (\<lparr>isValid = False, vals = None\<rparr>, optWarning t (error shippingResult))
               else
                 (let dutiesResult = validateCurrency (duties c) (Some ''Duties'')
                  in if \<not> isValid dutiesResult then
                       (\<lparr>isValid = False, vals = None\<rparr>, optWarning t (error dutiesResult))
                     else
                       (let tot = js_add (js_add (val priceResult) (val shippingResult))
                                    (val dutiesResult)
                        in (\<lparr>isValid = True,
                             vals = Some \<lparr>price = val priceResult,
                                          shipping = val shippingResult,
                                          duties = val dutiesResult,
                                          total = tot\<rparr>\<rparr>, t)))))"

text \<open>\<^verbatim>\<open>validateBudget(budget, toast)\<close>\<close>

definition validateBudget :: "raw \<Rightarrow> toast option \<Rightarrow> jsnum valued \<times> toast option" where
  "validateBudget budget t =
     (let result = validateCurrency budget (Some ''Budget'')
      in if \<not> isValid result then
           (\<lparr>isValid = False, val = Fin 0\<rparr>, optWarning t (error result))
         else (\<lparr>isValid = True, val = val result\<rparr>, t))"

subsection \<open>Calls with arguments outside their documented types\<close>

text \<open>
  The definitions above take \<^verbatim>\<open>costs\<close>, \<^verbatim>\<open>options\<close> and \<^verbatim>\<open>toast\<close> at the types of their JSDoc
  comments. JavaScript checks none of them: each of the three may be \<^verbatim>\<open>null\<close> or
  \<^verbatim>\<open>undefined\<close>, an option may be \<^verbatim>\<open>null\<close>, and a toast object may have no callable
  \<^verbatim>\<open>warning\<close>. Reading a property of \<^verbatim>\<open>null\<close> or \<^verbatim>\<open>undefined\<close>, destructuring \<^verbatim>\<open>null\<close>, and
  calling what is not a function raise a \<^verbatim>\<open>TypeError\<close>. The definitions of this subsection
  transcribe the same functions with such arguments; a call gives the exception raised
  (\<open>Inl\<close>) or the value returned (\<open>Inr\<close>).
\<close>

datatype exn = TypeError

datatype 'a arg = Undefined | Null | Val 'a

text \<open>
  A toast object either has a \<^verbatim>\<open>warning\<close> method, which records its argument, or has no
  callable \<^verbatim>\<open>warning\<close>. \<open>optionalWarning\<close> is \<^verbatim>\<open>toast?.warning(msg)\<close>.
\<close>

datatype toastObject = WithWarning toast | WithoutWarning

fun optionalWarning :: "toastObject arg \<Rightarrow> string option \<Rightarrow> exn + toastObject arg" where
  "optionalWarning Undefined msg = Inr Undefined"
| "optionalWarning Null msg = Inr Null"
| "optionalWarning (Val (WithWarning received)) msg = Inr (Val (WithWarning (received @ [msg])))"
| "optionalWarning (Val WithoutWarning) msg = Inl TypeError"

text \<open>The statement \<^verbatim>\<open>toast?.warning(msg); return result;\<close>\<close>

definition warnAndReturn ::
  "toastObject arg \<Rightarrow> string option \<Rightarrow> 'r \<Rightarrow> exn + 'r \<times> toastObject arg" where
  "warnAndReturn t msg result =
     (case optionalWarning t msg of Inl e \<Rightarrow> Inl e | Inr t' \<Rightarrow> Inr (result, t'))"

text \<open>
  \<^verbatim>\<open>validatePartCosts(costs, toast)\<close>: the first statement reads \<^verbatim>\<open>costs.price\<close>, which
  raises when \<^verbatim>\<open>costs\<close> is \<^verbatim>\<open>null\<close> or \<^verbatim>\<open>undefined\<close>.
\<close>

definition validatePartCosts_call ::
  "raw costs arg \<Rightarrow> toastObject arg \<Rightarrow> exn + PartCostsResult \<times> toastObject arg" where
  "validatePartCosts_call costs t =
     (case costs of
        Undefined \<Rightarrow> Inl TypeError
      | Null \<Rightarrow> Inl TypeError
      | Val c \<Rightarrow>
          (let priceResult = validateCurrency (price c) (Some ''Price'')
           in if \<not> isValid priceResult then
                warnAndReturn t (error priceResult) \<lparr>isValid = False, vals = None\<rparr>
              else
                (let shippingResult = validateCurrency (shipping c) (Some ''Shipping'')
                 in if \<not> isValid shippingResult then
                      warnAndReturn t (error shippingResult) \<lparr>isValid = False, vals = None\<rparr>
                    else
                      (let dutiesResult = validateCurrency (duties c) (Some ''Duties'')
                       in if \<not> isValid dutiesResult then
                            warnAndReturn t (error dutiesResult)
                              \<lparr>isValid = False, vals = None\<rparr>
                          else
                            (let tot = js_add (js_add (val priceResult) (val shippingResult))
                                         (val dutiesResult)
                             in Inr (\<lparr>isValid = True,
                                      vals = Some \<lparr>price = val priceResult,
                                                   shipping = val shippingResult,
                                                   duties = val dutiesResult,
                                                   total = tot\<rparr>\<rparr>, t))))))"

text \<open>\<^verbatim>\<open>validateBudget(budget, toast)\<close>\<close>

definition validateBudget_call ::
  "raw \<Rightarrow> toastObject arg \<Rightarrow> exn + jsnum valued \<times> toastObject arg" where
  "validateBudget_call budget t =
     (let result = validateCurrency budget (Some ''Budget'')
      in if \<not> isValid result then
           warnAndReturn t (error result) \<lparr>isValid = False, val = Fin 0\<rparr>
         else Inr (\<lparr>isValid = True, val = val result\<rparr>, t))"

text \<open>
  An options object whose properties are absent (\<open>Undefined\<close>), \<^verbatim>\<open>null\<close> or of their
  documented types. A destructuring default replaces an absent property only. In a
  comparison \<^verbatim>\<open>null\<close> counts as \<open>+0\<close>, in a condition as false, and in a template literal
  it is printed as \<^verbatim>\<open>null\<close>; \<^verbatim>\<open>max.toLocaleString()\<close> raises when \<^verbatim>\<open>max\<close> is \<^verbatim>\<open>null\<close>.
\<close>

record OptionsObject =
  min_prop :: "jsnum arg"
  max_prop :: "jsnum arg"
  allowEmpty_prop :: "bool arg"

fun withDefault :: "'a \<Rightarrow> 'a arg \<Rightarrow> 'a arg" where
  "withDefault d Undefined = Val d"
| "withDefault d x = x"

fun ToNumber :: "jsnum arg \<Rightarrow> jsnum" where
  "ToNumber Undefined = NaN"
| "ToNumber Null = Fin 0"
| "ToNumber (Val x) = x"

fun ToBoolean :: "bool arg \<Rightarrow> bool" where
  "ToBoolean (Val b) = b"
| "ToBoolean _ = False"

fun templateString :: "jsnum arg \<Rightarrow> string" where
  "templateString Undefined = ''undefined''"
| "templateString Null = ''null''"
| "templateString (Val x) = numberToString x"

definition validatePositiveInteger_call ::
  "(jsnum \<Rightarrow> string) \<Rightarrow> raw \<Rightarrow> string option \<Rightarrow> OptionsObject arg
     \<Rightarrow> exn + jsnum option ValidationResult" where
  "validatePositiveInteger_call toLocaleString v fieldName' options' =
     (let fieldName = the_default ''Value'' fieldName'
      in case withDefault
                \<lparr>min_prop = Undefined, max_prop = Undefined, allowEmpty_prop = Undefined\<rparr>
                options' of
           Undefined \<Rightarrow> Inl TypeError
         | Null \<Rightarrow> Inl TypeError
         | Val options \<Rightarrow>
             (let mn = withDefault (Fin 0) (min_prop options);
                  mx = withDefault PInf (max_prop options);
                  allowE = withDefault True (allowEmpty_prop options)
              in if v = JStr '''' \<or> v = JNull \<or> v = JUndefined then
                   (if ToBoolean allowE then Inr \<lparr>isValid = True, val = None, error = None\<rparr>
                    else Inr \<lparr>isValid = False, val = None,
                              error = Some (fieldName @ '' is required'')\<rparr>)
                 else
                   (let parsed = parseInt10 v
                    in if isNaN parsed then
                         Inr \<lparr>isValid = False, val = None,
                              error = Some (fieldName @ '' must be a valid number'')\<rparr>
                       else if js_lt parsed (ToNumber mn) then
                         Inr \<lparr>isValid = False, val = None,
                              error = Some (fieldName @ '' must be at least ''
                                              @ templateString mn)\<rparr>
                       else if js_gt parsed (ToNumber mx) then
                         (case mx of
                            Val m \<Rightarrow>
                              Inr \<lparr>isValid = False, val = None,
                                   error = Some (fieldName @ '' must be at most ''
                                                   @ toLocaleString m)\<rparr>
                          | _ \<Rightarrow> Inl TypeError)
                       else Inr \<lparr>isValid = True, val = Some parsed, error = None\<rparr>)))"

text \<open>\<^verbatim>\<open>validateYear\<close> and \<^verbatim>\<open>validateOdometer\<close> pass an options object of their own.\<close>

definition validateYear_call ::
  "(jsnum \<Rightarrow> string) \<Rightarrow> jsnum \<Rightarrow> raw \<Rightarrow> string option
     \<Rightarrow> exn + jsnum option ValidationResult" where
  "validateYear_call toLocaleString currentYear v fieldName' =
     validatePositiveInteger_call toLocaleString v (Some (the_default ''Year'' fieldName'))
       (Val \<lparr>min_prop = Val (Fin 1900), max_prop = Val (js_add currentYear (Fin 2)),
             allowEmpty_prop = Val True\<rparr>)"

definition validateOdometer_call ::
  "(jsnum \<Rightarrow> string) \<Rightarrow> raw \<Rightarrow> string option \<Rightarrow> exn + jsnum option ValidationResult" where
  "validateOdometer_call toLocaleString v fieldName' =
     validatePositiveInteger_call toLocaleString v (Some (the_default ''Odometer'' fieldName'))
       (Val \<lparr>min_prop = Val (Fin 0), max_prop = Val (Fin 10000000),
             allowEmpty_prop = Val True\<rparr>)"

text \<open>The arguments of the documented types, as arguments of a call.\<close>

definition toastArg :: "toast option \<Rightarrow> toastObject arg" where
  "toastArg t = (case t of None \<Rightarrow> Undefined | Some received \<Rightarrow> Val (WithWarning received))"

definition propArg :: "'a option \<Rightarrow> 'a arg" where
  "propArg x = (case x of None \<Rightarrow> Undefined | Some y \<Rightarrow> Val y)"

definition optionsArg :: "ValidationOptions option \<Rightarrow> OptionsObject arg" where
  "optionsArg options =
     (case options of
        None \<Rightarrow> Undefined
      | Some r \<Rightarrow>
          Val \<lparr>min_prop = propArg (opt_min r), max_prop = propArg (opt_max r),
               allowEmpty_prop = propArg (allowEmpty r)\<rparr>)"

section \<open>The reference definitions of the specification\<close>

text \<open>
  Sections 4.1 and 4.2 of the specification describe the two field validators by cases on
  the raw input. The two definitions below follow those descriptions, bullet by bullet;
  the field label and the options arrive with their defaults already applied.
\<close>

definition isEmptyInput :: "raw \<Rightarrow> bool" where
  \<comment> \<open>``empty, null, or undefined input''\<close>
  "isEmptyInput v = (v \<in> {JStr '''', JNull, JUndefined})"

definition CurrencyValidator_spec :: "raw \<Rightarrow> string \<Rightarrow> jsnum ValidationResult" where
  "CurrencyValidator_spec input field =
     (if isEmptyInput input then \<lparr>isValid = True, val = Fin 0, error = None\<rparr>
      else case parseFloat input of
        NaN \<Rightarrow>
          \<lparr>isValid = False, val = Fin 0, error = Some (field @ '' must be a valid number'')\<rparr>
      | NInf \<Rightarrow>
          \<lparr>isValid = False, val = Fin 0, error = Some (field @ '' cannot be negative'')\<rparr>
      | PInf \<Rightarrow>
          \<lparr>isValid = False, val = Fin 0,
           error = Some (field @ '' exceeds maximum allowed value'')\<rparr>
      | NZero \<Rightarrow> \<lparr>isValid = True, val = NZero, error = None\<rparr>
      | Fin x \<Rightarrow>
          if x < 0 then
            \<lparr>isValid = False, val = Fin 0, error = Some (field @ '' cannot be negative'')\<rparr>
          else if 1000000000 < x then
            \<lparr>isValid = False, val = Fin 0,
             error = Some (field @ '' exceeds maximum allowed value'')\<rparr>
          else \<lparr>isValid = True, val = Fin x, error = None\<rparr>)"

definition PositiveIntegerValidator_spec ::
  "(jsnum \<Rightarrow> string) \<Rightarrow> raw \<Rightarrow> string \<Rightarrow> jsnum \<Rightarrow> jsnum \<Rightarrow> bool
     \<Rightarrow> jsnum option ValidationResult" where
  "PositiveIntegerValidator_spec thousands input field lower upper emptyAllowed =
     (if isEmptyInput input then
        (if emptyAllowed then \<lparr>isValid = True, val = None, error = None\<rparr>
         else \<lparr>isValid = False, val = None, error = Some (field @ '' is required'')\<rparr>)
      else if parseInt10 input = NaN then
        \<lparr>isValid = False, val = None, error = Some (field @ '' must be a valid number'')\<rparr>
      else if js_lt (parseInt10 input) lower then
        \<lparr>isValid = False, val = None,
         error = Some (field @ '' must be at least '' @ numberToString lower)\<rparr>
      else if js_lt upper (parseInt10 input) then
        \<lparr>isValid = False, val = None,
         error = Some (field @ '' must be at most '' @ thousands upper)\<rparr>
      else \<lparr>isValid = True, val = Some (parseInt10 input), error = None\<rparr>)"

text \<open>The options of a call, with the destructuring defaults applied.\<close>

definition minOf :: "ValidationOptions option \<Rightarrow> jsnum" where
  "minOf options = (case options of None \<Rightarrow> Fin 0 | Some r \<Rightarrow> the_default (Fin 0) (opt_min r))"

definition maxOf :: "ValidationOptions option \<Rightarrow> jsnum" where
  "maxOf options = (case options of None \<Rightarrow> PInf | Some r \<Rightarrow> the_default PInf (opt_max r))"

definition allowEmptyOf :: "ValidationOptions option \<Rightarrow> bool" where
  "allowEmptyOf options =
     (case options of None \<Rightarrow> True | Some r \<Rightarrow> the_default True (allowEmpty r))"

text \<open>
  Feeding a result's value back as an input: a Number as it is, \<^verbatim>\<open>null\<close> as \<^verbatim>\<open>null\<close>.
\<close>

definition fedBack :: "jsnum option \<Rightarrow> raw" where
  "fedBack x = (case x of None \<Rightarrow> JNull | Some p \<Rightarrow> JNum p)"

text \<open>
  A value that Number-to-String prints in full when it is an integer: \<^verbatim>\<open>null\<close>, or a
  Number other than \<open>-0\<close> of magnitude below \<open>10\<^sup>2\<^sup>1\<close>.
\<close>

definition belowExponent :: "jsnum option \<Rightarrow> bool" where
  "belowExponent x =
     (case x of None \<Rightarrow> True
      | Some p \<Rightarrow> p \<noteq> NZero \<and> js_lt (Fin (- 1000000000000000000000)) p
                 \<and> js_lt p (Fin 1000000000000000000000))"

subsection \<open>Numeric strings\<close>

text \<open>
  A numeric string is a decimal literal: an optional sign, digits, an optional point with
  further digits, and an optional exponent (the letter, an optional sign, digits). There
  is a digit before or after the point. The literal is given by its parts; the fraction is
  \<open>None\<close> when there is no point.
\<close>

definition decimalDigit :: "char \<Rightarrow> bool" where
  "decimalDigit c = (c \<in> set ''0123456789'')"

definition digitOf :: "char \<Rightarrow> int" where
  "digitOf c = int (length (takeWhile (\<lambda>d. d \<noteq> c) ''0123456789''))"

primrec decimalValue :: "string \<Rightarrow> int" where
  "decimalValue [] = 0"
| "decimalValue (c # cs) = digitOf c * 10 ^ length cs + decimalValue cs"

definition isSign :: "string \<Rightarrow> bool" where
  "isSign s = (s = [] \<or> s = ''+'' \<or> s = ''-'')"

record literal =
  lit_sign :: string
  lit_whole :: string
  lit_frac :: "string option"
  lit_exp :: "(char \<times> string \<times> string) option"

definition wellFormed :: "literal \<Rightarrow> bool" where
  "wellFormed d =
     (isSign (lit_sign d) \<and> list_all decimalDigit (lit_whole d) \<and>
      (case lit_frac d of
         None \<Rightarrow> lit_whole d \<noteq> []
       | Some fp \<Rightarrow> list_all decimalDigit fp \<and> (lit_whole d \<noteq> [] \<or> fp \<noteq> [])) \<and>
      (case lit_exp d of
         None \<Rightarrow> True
       | Some (c, sg, ds) \<Rightarrow>
           (c = CHR ''e'' \<or> c = CHR ''E'') \<and> isSign sg \<and> ds \<noteq> [] \<and> list_all decimalDigit ds))"

definition literalText :: "literal \<Rightarrow> string" where
  "literalText d =
     lit_sign d @ lit_whole d
       @ (case lit_frac d of None \<Rightarrow> [] | Some fp \<Rightarrow> ''.'' @ fp)
       @ (case lit_exp d of None \<Rightarrow> [] | Some (c, sg, ds) \<Rightarrow> c # sg @ ds)"

text \<open>
  The number a literal denotes has the magnitude (whole + fraction) \<open>\<times> 10\<^sup>e\<close> and is
  negative when the sign is a minus and the magnitude is not zero.
\<close>

definition exponentOf :: "literal \<Rightarrow> int" where
  "exponentOf d =
     (case lit_exp d of
        None \<Rightarrow> 0
      | Some (c, sg, ds) \<Rightarrow> (if sg = ''-'' then - decimalValue ds else decimalValue ds))"

definition magnitude :: "literal \<Rightarrow> rat" where
  "magnitude d =
     (of_int (decimalValue (lit_whole d))
        + (case lit_frac d of None \<Rightarrow> 0 | Some fp \<Rightarrow> of_int (decimalValue fp) / 10 ^ length fp))
     * 10 powi exponentOf d"

definition hasMinus :: "literal \<Rightarrow> bool" where
  "hasMinus d = (lit_sign d = ''-'')"

definition literalValue :: "literal \<Rightarrow> rat" where
  "literalValue d = (if hasMinus d then - magnitude d else magnitude d)"

text \<open>
  The Number of a literal: the binary64 value nearest to its magnitude, with the sign of
  the literal (so a literal with a minus sign that rounds to zero gives \<open>-0\<close>).
\<close>

definition literalNumber :: "literal \<Rightarrow> jsnum" where
  "literalNumber d = (if hasMinus d then js_neg (round64 (magnitude d)) else round64 (magnitude d))"

text \<open>
  Text after a literal that cannot continue it: it does not start with a digit; after a
  literal without exponent it does not start with an exponent (the letter, an optional
  sign, a digit); after a literal with neither exponent nor point it does not start with
  a point.
\<close>

fun startsExponent :: "string \<Rightarrow> bool" where
  "startsExponent (c # d # r) =
     ((c = CHR ''e'' \<or> c = CHR ''E'') \<and>
      (decimalDigit d \<or> ((d = CHR ''+'' \<or> d = CHR ''-'') \<and> r \<noteq> [] \<and> decimalDigit (hd r))))"
| "startsExponent _ = False"

definition stops :: "literal \<Rightarrow> string \<Rightarrow> bool" where
  "stops d rest =
     (case rest of
        [] \<Rightarrow> True
      | c # cs \<Rightarrow>
          \<not> decimalDigit c \<and>
          (lit_exp d = None \<longrightarrow> \<not> startsExponent rest \<and> (lit_frac d = None \<longrightarrow> c \<noteq> CHR ''.'')))"

text \<open>
  The range of section 4.1 as the parsed Number sees it: a magnitude is read as at most
  the ceiling up to half a unit in the last place above it (\<open>2\<^sup>-\<^sup>2\<^sup>4\<close>), and as zero up to
  half the least positive Number (\<open>2\<^sup>-\<^sup>1\<^sup>0\<^sup>7\<^sup>5\<close>).
\<close>

definition readsWithinCeiling :: "rat \<Rightarrow> bool" where
  "readsWithinCeiling m = (m \<le> 1000000000 + 1 / 2 ^ 24)"

definition readsAsZero :: "rat \<Rightarrow> bool" where
  "readsAsZero m = (m \<le> 1 / 2 ^ 1075)"

section \<open>Properties of the arithmetic\<close>

lemma withSign_plus [simp]: "withSign 1 x = x"
  by (simp add: withSign_def)

lemma withSign_minus [simp]: "withSign (- 1) x = js_neg x"
  by (simp add: withSign_def)

lemma powi2_suc: "(2::rat) powi (a + 1) = 2 powi a * 2"
  by (simp add: power_int_add)

lemma powi2_pred: "(2::rat) powi (a - 1) = 2 powi a / 2"
  by (simp add: power_int_diff)

lemma powi2_mono: "a \<le> b \<Longrightarrow> (2::rat) powi a \<le> 2 powi b"
  by (rule power_int_increasing) simp_all

lemma powi2_less_D: "(2::rat) powi a < 2 powi b \<Longrightarrow> a < b"
  using powi2_mono[of b a] by (cases "a < b") auto

text \<open>With enough fuel, \<open>binexp\<close> is the binary exponent.\<close>

lemma binexp_bounds:
  "2 powi (- int n) \<le> q \<Longrightarrow> q < 2 powi (int n + 1) \<Longrightarrow>
   2 powi (binexp n q) \<le> q \<and> q < 2 powi (binexp n q + 1)"
proof (induction n arbitrary: q)
  case 0
  then show ?case by simp
next
  case (Suc n)
  have "int (Suc n) + 1 = (int n + 1) + 1" by simp
  then have eq1: "(2::rat) powi (int (Suc n) + 1) = 2 powi (int n + 1) * 2"
    by (simp only: powi2_suc)
  have "- int (Suc n) = - int n - 1" by simp
  then have eq2: "(2::rat) powi (- int (Suc n)) = 2 powi (- int n) / 2"
    by (simp only: powi2_pred)
  have le1: "2 powi (- int n) \<le> (1::rat)"
    by (simp add: power_int_minus inverse_le_1_iff)
  have ge1: "(2::rat) \<le> 2 powi (int n + 1)"
    using one_le_power_int[of "2::rat" "int n"] by (simp add: powi2_suc)
  show ?case
  proof (cases "2 \<le> q")
    case True
    have b: "2 powi (- int n) \<le> q / 2" using True le1 by linarith
    have c: "q / 2 < 2 powi (int n + 1)" using Suc.prems(2) eq1 by simp
    define d where "d = binexp n (q / 2)"
    from Suc.IH[OF b c] have h: "2 powi d \<le> q / 2" "q / 2 < 2 powi (d + 1)"
      by (simp_all add: d_def)
    have v: "binexp (Suc n) q = d + 1" using True by (simp add: d_def)
    have "2 powi (d + 1) \<le> q" using h(1) powi2_suc[of d] by linarith
    moreover have "q < 2 powi (d + 1 + 1)" using h(2) powi2_suc[of "d + 1"] by linarith
    ultimately show ?thesis unfolding v by blast
  next
    case False
    show ?thesis
    proof (cases "q < 1")
      case True
      have b: "2 powi (- int n) \<le> q * 2" using Suc.prems(1) eq2 by simp
      have c: "q * 2 < 2 powi (int n + 1)" using True ge1 by linarith
      define d where "d = binexp n (q * 2)"
      from Suc.IH[OF b c] have h: "2 powi d \<le> q * 2" "q * 2 < 2 powi (d + 1)"
        by (simp_all add: d_def)
      have v: "binexp (Suc n) q = d - 1" using True False by (simp add: d_def)
      have "2 powi (d - 1) \<le> q" using h(1) powi2_pred[of d] by linarith
      moreover have "q < 2 powi (d - 1 + 1)" using h(2) powi2_suc[of d] by simp
      ultimately show ?thesis unfolding v by blast
    next
      case False
      with \<open>\<not> 2 \<le> q\<close> show ?thesis by simp
    qed
  qed
qed

lemma round_half_even_int: "round_half_even (of_int k) = k"
  by (simp add: round_half_even_def)

text \<open>Rounding leaves a binary64 value as it is.\<close>

lemma round64_exact:
  assumes "is_double q"
  shows "round64 q = Fin q"
proof (cases "q = 0")
  case True
  then show ?thesis by (simp add: round64_def round_half_even_def)
next
  case False
  with assms obtain m e where me: "\<bar>q\<bar> = of_int m * 2 powi e" "0 < m" "m < 2 ^ 53"
    "- 1074 \<le> e" "e \<le> 971"
    by (auto simp: is_double_def)
  define a where "a = \<bar>q\<bar>"
  define b where "b = binexp 1100 a"
  define e' where "e' = max b (- 1022)"
  have m1: "(1::rat) \<le> of_int m" using me(2) by simp
  have mlt: "(of_int m :: rat) < 2 powi 53" using me(3)
    by (metis of_int_less_iff of_int_numeral of_int_power power_int_numeral numeral_Bit1
        nat_numeral)
  have lo: "2 powi e \<le> a"
    using m1 mult_right_mono[OF m1, of "2 powi e"] by (simp add: a_def me(1))
  have hi: "a < 2 powi (e + 53)"
    using mlt mult_strict_right_mono[OF mlt, of "2 powi e"]
    by (simp add: a_def me(1) power_int_add mult.commute)
  have "(2::rat) powi (- int 1100) \<le> 2 powi e" using me(4) by (intro powi2_mono) simp
  then have p1: "2 powi (- int 1100) \<le> a" using lo by linarith
  have "(2::rat) powi (e + 53) \<le> 2 powi (int 1100 + 1)" using me(5) by (intro powi2_mono) simp
  then have p2: "a < 2 powi (int 1100 + 1)" using hi by linarith
  from binexp_bounds[OF p1 p2] have bb: "2 powi b \<le> a" "a < 2 powi (b + 1)"
    by (simp_all add: b_def)
  have "(2::rat) powi b < 2 powi (e + 53)" using bb(1) hi by linarith
  then have "b < e + 53" by (rule powi2_less_D)
  then have e'le: "e' \<le> e + 52" using me(4) by (simp add: e'_def)
  define j where "j = nat (e + 52 - e')"
  have jeq: "int j = e + 52 - e'" using e'le by (simp add: j_def)
  have "(2::rat) powi e = 2 powi (int j) * 2 powi (e' - 52)"
    by (simp add: jeq flip: power_int_add)
  then have adiv: "a / 2 powi (e' - 52) = of_int (m * 2 ^ j)"
    by (simp add: a_def me(1))
  have r: "of_int (round_half_even (a / 2 powi (e' - 52))) * 2 powi (e' - 52) = a"
    unfolding adiv round_half_even_int using adiv by (simp add: field_simps)
  have "(2::rat) powi (e + 53) \<le> 2 powi 1024" using me(5) by (intro powi2_mono) simp
  then have nov: "\<not> 2 powi 1024 \<le> a" using hi by linarith
  have "a \<noteq> 0" using False by (simp add: a_def)
  moreover have "sgn q * a = q" by (simp add: a_def sgn_mult_abs)
  ultimately show ?thesis
    using r nov unfolding round64_def Let_def a_def[symmetric] b_def[symmetric] e'_def[symmetric]
    by simp
qed

lemma is_double_int: "\<bar>n\<bar> < 2 ^ 53 \<Longrightarrow> is_double (of_int n)"
proof (cases "n = 0")
  case True
  then show ?thesis by (simp add: is_double_def)
next
  case False
  assume "\<bar>n\<bar> < 2 ^ 53"
  with False have "\<bar>of_int n :: rat\<bar> = of_int \<bar>n\<bar> * 2 powi 0 \<and> 0 < \<bar>n\<bar> \<and> \<bar>n\<bar> < 2 ^ 53
      \<and> - 1074 \<le> (0::int) \<and> (0::int) \<le> 971"
    by simp
  then show ?thesis unfolding is_double_def by blast
qed

lemma round64_int: "\<bar>n\<bar> < 2 ^ 53 \<Longrightarrow> round64 (of_int n) = Fin (of_int n)"
  by (rule round64_exact) (rule is_double_int)

lemmas parse_defs = parseFloat_def parseFloat_str_def parseInt10_def parseInt10_str_def
  trimStart_def isWhiteSpace_def strUnsigned_def isDigit_def digitVal_def digitsVal_def Let_def
  withSign_def

section \<open>The field validators against the specification\<close>

text \<open>
  The currency validator is the cascade of section 4.1, the tests being made on the parsed
  Number.
\<close>

lemma validateCurrency_cascade:
  "validateCurrency v fieldName = CurrencyValidator_spec v (the_default ''Value'' fieldName)"
  by (cases "parseFloat v")
     (auto simp: validateCurrency_def CurrencyValidator_spec_def isEmptyInput_def Let_def
        isNaN_def js_gt_def)


section \<open>Evaluating the model on concrete inputs\<close>

lemma round64_numeral: "numeral k < (2::int) ^ 53 \<Longrightarrow> round64 (numeral k) = Fin (numeral k)"
  using round64_int[of "numeral k"] by simp

lemma round64_neg_numeral:
  "numeral k < (2::int) ^ 53 \<Longrightarrow> round64 (- numeral k) = Fin (- numeral k)"
  using round64_int[of "- numeral k"] by simp

lemma round64_zero: "round64 0 = Fin 0"
  using round64_int[of 0] by simp

lemma is_double_halves: "\<bar>n\<bar> < 2 ^ 53 \<Longrightarrow> is_double (of_int n / 2)"
proof (cases "n = 0")
  case True
  then show ?thesis by (simp add: is_double_def)
next
  case False
  assume "\<bar>n\<bar> < 2 ^ 53"
  with False have "\<bar>of_int n / 2 :: rat\<bar> = of_int \<bar>n\<bar> * 2 powi (- 1) \<and> 0 < \<bar>n\<bar> \<and> \<bar>n\<bar> < 2 ^ 53
      \<and> - 1074 \<le> (- 1::int) \<and> (- 1::int) \<le> 971"
    by (simp add: power_int_minus)
  then show ?thesis unfolding is_double_def by blast
qed

lemma round64_halves:
  "numeral k < (2::int) ^ 53 \<Longrightarrow> round64 (numeral k / 2) = Fin (numeral k / 2)"
  using round64_exact[OF is_double_halves[of "numeral k"]] by simp

lemma decexp_numeral:
  "decexp (numeral k) q =
     (if 1 \<le> q then decexp (pred_numeral k) (q / 10) + 1
      else if q < 1 / 10 then decexp (pred_numeral k) (q * 10) - 1
      else 0)"
  by (simp add: numeral_eq_Suc)

text \<open>A one-digit candidate that reads back ends the search at once.\<close>

lemma shortest_first:
  assumes "roundtrips x c" and "c = hd (candidates x (decexp 400 x) 1)"
  shows "shortest x = c"
proof -
  have u: "[1 ..< 18] = 1 # [2 ..< 18]" by (simp add: upt_conv_Cons)
  obtain c' where cs: "candidates x (decexp 400 x) (Suc 0) = [c, c']"
    using assms(2) by (auto simp: candidates_def Let_def split: if_splits)
  show ?thesis using assms(1) unfolding shortest_def Let_def u
    by (simp add: cs)
qed

lemma numberToString_minus_5: "numberToString (Fin (- 5)) = ''-5''"
proof -
  have d: "decexp 400 5 = 1" by (simp add: decexp_numeral)
  have c: "hd (candidates 5 1 1) = (5, 1)" by (simp add: candidates_def)
  have r: "roundtrips 5 (5, 1)"
    by (simp add: roundtrips_def digits10.simps round64_numeral)
  have "shortest 5 = (5, 1)" using shortest_first[OF r] c d by simp
  then show ?thesis by (simp add: formatDigits_def digits10.simps digitChar_def)
qed

lemmas validator_defs = validateCurrency_def validatePositiveInteger_def isNaN_def js_gt_def
  the_default_def

section \<open>The invariant of validation results\<close>

text \<open>
  C5. Every result of \<open>validateCurrency\<close> and of \<open>validatePositiveInteger\<close>, for every
  input, label and options, satisfies the invariant of section 3: a valid result has no
  error; an invalid result carries the designated default value (0 for the currency
  validator, null for the integer validator) and a non-empty error message.
\<close>

theorem validation_result_invariant:
  "(isValid (validateCurrency v f) \<longrightarrow> error (validateCurrency v f) = None) \<and>
   (\<not> isValid (validateCurrency v f) \<longrightarrow>
      val (validateCurrency v f) = Fin 0 \<and>
      (\<exists>msg. error (validateCurrency v f) = Some msg \<and> msg \<noteq> [])) \<and>
   (isValid (validatePositiveInteger L v f opts) \<longrightarrow>
      error (validatePositiveInteger L v f opts) = None) \<and>
   (\<not> isValid (validatePositiveInteger L v f opts) \<longrightarrow>
      val (validatePositiveInteger L v f opts) = None \<and>
      (\<exists>msg. error (validatePositiveInteger L v f opts) = Some msg \<and> msg \<noteq> []))"
  by (simp add: validateCurrency_def validatePositiveInteger_def Let_def)

theorem validation_result_invariant_witness:
  "error (validateCurrency (JStr ''12.5'') None) = None \<and>
   val (validateCurrency (JStr ''abc'') None) = Fin 0 \<and>
   error (validateCurrency (JStr ''abc'') None) = Some ''Value must be a valid number'' \<and>
   error (validatePositiveInteger numberToString (JStr ''42'') None None) = None \<and>
   val (validatePositiveInteger numberToString (JStr ''-3'') None None) = None \<and>
   error (validatePositiveInteger numberToString (JStr ''-3'') None None)
     = Some ''Value must be at least 0''"
  using validation_result_invariant [of "JStr ''12.5''" None numberToString None]
        validation_result_invariant [of "JStr ''abc''" None numberToString None]
        validation_result_invariant [of "JStr ''42''" None numberToString None]
        validation_result_invariant [of "JStr ''-3''" None numberToString None]
  by (simp add: validator_defs parse_defs round64_numeral round64_neg_numeral
        round64_halves [of "Num.Bit1 (Num.Bit0 (Num.Bit0 (Num.Bit1 Num.One)))", simplified]
        power_int_minus)

section \<open>The part-cost composite validator\<close>

text \<open>
  C1. \<open>validatePartCosts\<close> validates price, then shipping, then duties with the currency
  validator. At the first field whose result is invalid it calls the sink's warning
  channel once, with that field's error message (one of the three messages of the
  currency validator, under that field's label), and returns
  \<open>{isValid: false, values: null}\<close>; the outcome does not depend on the fields after it, so
  an error in a later field is not surfaced in the same call.
\<close>

theorem validatePartCosts_first_failure:
  "(\<not> isValid (validateCurrency (price c) (Some ''Price'')) \<longrightarrow>
      validatePartCosts c (Some sink) =
        (\<lparr>isValid = False, vals = None\<rparr>,
         Some (sink @ [error (validateCurrency (price c) (Some ''Price''))])) \<and>
      error (validateCurrency (price c) (Some ''Price'')) \<in>
        {Some ''Price must be a valid number'', Some ''Price cannot be negative'',
         Some ''Price exceeds maximum allowed value''}) \<and>
   (isValid (validateCurrency (price c) (Some ''Price'')) \<and>
    \<not> isValid (validateCurrency (shipping c) (Some ''Shipping'')) \<longrightarrow>
      validatePartCosts c (Some sink) =
        (\<lparr>isValid = False, vals = None\<rparr>,
         Some (sink @ [error (validateCurrency (shipping c) (Some ''Shipping''))])) \<and>
      error (validateCurrency (shipping c) (Some ''Shipping'')) \<in>
        {Some ''Shipping must be a valid number'', Some ''Shipping cannot be negative'',
         Some ''Shipping exceeds maximum allowed value''}) \<and>
   (isValid (validateCurrency (price c) (Some ''Price'')) \<and>
    isValid (validateCurrency (shipping c) (Some ''Shipping'')) \<and>
    \<not> isValid (validateCurrency (duties c) (Some ''Duties'')) \<longrightarrow>
      validatePartCosts c (Some sink) =
        (\<lparr>isValid = False, vals = None\<rparr>,
         Some (sink @ [error (validateCurrency (duties c) (Some ''Duties''))])) \<and>
      error (validateCurrency (duties c) (Some ''Duties'')) \<in>
        {Some ''Duties must be a valid number'', Some ''Duties cannot be negative'',
         Some ''Duties exceeds maximum allowed value''})"
proof -
  have inv: "\<not> isValid (validateCurrency v (Some f)) \<Longrightarrow>
      error (validateCurrency v (Some f)) \<in>
        {Some (f @ '' must be a valid number''), Some (f @ '' cannot be negative''),
         Some (f @ '' exceeds maximum allowed value'')}" for v f
    by (simp add: validateCurrency_def Let_def the_default_def split: if_splits)
  show ?thesis
    using inv[of "price c" "''Price''"] inv[of "shipping c" "''Shipping''"]
      inv[of "duties c" "''Duties''"]
    by (simp add: validatePartCosts_def Let_def optWarning_def)
qed

theorem validatePartCosts_first_failure_witness:
  "validatePartCosts \<lparr>price = JStr ''10'', shipping = JStr ''5'', duties = JStr ''abc''\<rparr> (Some [])
     = (\<lparr>isValid = False, vals = None\<rparr>, Some [Some ''Duties must be a valid number'']) \<and>
   validatePartCosts \<lparr>price = JStr ''10'', shipping = JStr ''-5'', duties = JStr ''abc''\<rparr> (Some [])
     = (\<lparr>isValid = False, vals = None\<rparr>, Some [Some ''Shipping cannot be negative'']) \<and>
   validatePartCosts \<lparr>price = JStr ''abc'', shipping = JStr ''5'', duties = JStr ''-1''\<rparr> (Some [])
     = (\<lparr>isValid = False, vals = None\<rparr>, Some [Some ''Price must be a valid number''])"
  using validatePartCosts_first_failure
          [of "\<lparr>price = JStr ''10'', shipping = JStr ''5'', duties = JStr ''abc''\<rparr>" "[]"]
        validatePartCosts_first_failure
          [of "\<lparr>price = JStr ''10'', shipping = JStr ''-5'', duties = JStr ''abc''\<rparr>" "[]"]
        validatePartCosts_first_failure
          [of "\<lparr>price = JStr ''abc'', shipping = JStr ''5'', duties = JStr ''-1''\<rparr>" "[]"]
  by (simp add: validator_defs parse_defs round64_numeral round64_neg_numeral)

text \<open>
  C2. When the three currency validations succeed, \<open>validatePartCosts\<close> leaves the sink
  untouched (whether present or absent) and returns \<open>isValid: true\<close> with the bundle of the
  three normalized values (0 for an empty field, the parsed Number otherwise, never the
  raw input) and \<open>total\<close> the sum, as \<^verbatim>\<open>+\<close> computes it from left to right, of those three
  normalized values.
\<close>

theorem validatePartCosts_success:
  assumes "isValid (validateCurrency (price c) (Some ''Price''))"
    and "isValid (validateCurrency (shipping c) (Some ''Shipping''))"
    and "isValid (validateCurrency (duties c) (Some ''Duties''))"
  shows "\<exists>p s d.
           p = (if isEmptyInput (price c) then Fin 0 else parseFloat (price c)) \<and>
           s = (if isEmptyInput (shipping c) then Fin 0 else parseFloat (shipping c)) \<and>
           d = (if isEmptyInput (duties c) then Fin 0 else parseFloat (duties c)) \<and>
           validatePartCosts c t =
             (\<lparr>isValid = True,
               vals = Some \<lparr>price = p, shipping = s, duties = d,
                            total = js_add (js_add p s) d\<rparr>\<rparr>, t)"
proof -
  have v: "isValid (validateCurrency x f) \<Longrightarrow>
      val (validateCurrency x f) = (if isEmptyInput x then Fin 0 else parseFloat x)" for x f
    by (auto simp: validateCurrency_def isEmptyInput_def Let_def split: if_splits)
  show ?thesis
    using assms by (simp add: validatePartCosts_def Let_def v)
qed

theorem validatePartCosts_success_witness:
  "validatePartCosts \<lparr>price = JStr ''10.50'', shipping = JStr ''2'', duties = JStr ''0''\<rparr>
     (Some [])
   = (\<lparr>isValid = True,
       vals = Some \<lparr>price = Fin (21 / 2), shipping = Fin 2, duties = Fin 0,
                    total = Fin (25 / 2)\<rparr>\<rparr>, Some [])"
proof -
  let ?c = "\<lparr>price = JStr ''10.50'', shipping = JStr ''2'', duties = JStr ''0''\<rparr>"
  have h1: "round64 (21 / 2) = Fin (21 / 2)"
    using round64_halves [of "Num.Bit1 (Num.Bit0 (Num.Bit1 (Num.Bit0 Num.One)))"] by simp
  have h2: "round64 (25 / 2) = Fin (25 / 2)"
    using round64_halves [of "Num.Bit1 (Num.Bit0 (Num.Bit0 (Num.Bit1 Num.One)))"] by simp
  have p: "parseFloat (JStr ''10.50'') = Fin (21 / 2)"
    by (simp add: parse_defs power_int_minus h1)
  have s: "parseFloat (JStr ''2'') = Fin 2"
    by (simp add: parse_defs round64_numeral)
  have d: "parseFloat (JStr ''0'') = Fin 0"
    by (simp add: parse_defs round64_zero)
  have a1: "isValid (validateCurrency (price ?c) (Some ''Price''))"
    by (simp add: validator_defs p)
  have a2: "isValid (validateCurrency (shipping ?c) (Some ''Shipping''))"
    by (simp add: validator_defs s)
  have a3: "isValid (validateCurrency (duties ?c) (Some ''Duties''))"
    by (simp add: validator_defs d)
  show ?thesis
    using validatePartCosts_success [OF a1 a2 a3, of "Some []"]
    by (simp add: isEmptyInput_def p s d h2)
qed

section \<open>The budget validator\<close>

text \<open>
  C6. \<open>validateBudget\<close> delegates to the currency validator with the label ``Budget''. When
  that result is invalid it calls the sink's warning channel with the currency
  validator's error message and returns \<open>{isValid: false, value: 0}\<close>; when it is valid it
  returns \<open>{isValid: true, value}\<close> with the normalized value and leaves the sink untouched.
  For the number \<open>-5\<close> the sink receives ``Budget cannot be negative'' and the result is
  \<open>{isValid: false, value: 0}\<close>.
\<close>

theorem validateBudget_contract:
  "(\<not> isValid (validateCurrency budget (Some ''Budget'')) \<longrightarrow>
      validateBudget budget (Some sink) =
        (\<lparr>isValid = False, val = Fin 0\<rparr>,
         Some (sink @ [error (validateCurrency budget (Some ''Budget''))]))) \<and>
   (isValid (validateCurrency budget (Some ''Budget'')) \<longrightarrow>
      validateBudget budget t =
        (\<lparr>isValid = True, val = val (validateCurrency budget (Some ''Budget''))\<rparr>, t)) \<and>
   validateBudget (JNum (Fin (- 5))) (Some sink) =
     (\<lparr>isValid = False, val = Fin 0\<rparr>, Some (sink @ [Some ''Budget cannot be negative'']))"
  by (simp add: validateBudget_def Let_def optWarning_def validator_defs parseFloat_def
        numberToString_minus_5 parseFloat_str_def trimStart_def isWhiteSpace_def strUnsigned_def
        isDigit_def digitVal_def digitsVal_def round64_numeral
        del: numberToString.simps)

theorem validateBudget_contract_witness:
  "validateBudget (JStr ''abc'') (Some []) =
     (\<lparr>isValid = False, val = Fin 0\<rparr>, Some [Some ''Budget must be a valid number'']) \<and>
   validateBudget (JStr ''2500'') (Some []) = (\<lparr>isValid = True, val = Fin 2500\<rparr>, Some [])"
  using validateBudget_contract [of "JStr ''abc''" "[]" "Some []"]
        validateBudget_contract [of "JStr ''2500''" "[]" "Some []"]
  by (simp add: validator_defs parse_defs round64_numeral)

section \<open>The derived validators\<close>

text \<open>
  C9. For every raw input, \<open>validateYear\<close> is \<open>validatePositiveInteger\<close> with min 1900, max
  the current year plus 2 (the year being a parameter) and allowEmpty true, and
  \<open>validateOdometer\<close> is \<open>validatePositiveInteger\<close> with min 0, max 10,000,000 and
  allowEmpty true; so each is the reference definition of section 4.2 at those bounds.
\<close>

theorem derived_validators:
  "validateYear L currentYear v f =
     validatePositiveInteger L v (Some (the_default ''Year'' f))
       (Some \<lparr>opt_min = Some (Fin 1900), opt_max = Some (js_add currentYear (Fin 2)),
              allowEmpty = Some True\<rparr>) \<and>
   validateYear L currentYear v f =
     PositiveIntegerValidator_spec L v (the_default ''Year'' f)
       (Fin 1900) (js_add currentYear (Fin 2)) True \<and>
   validateOdometer L v f =
     validatePositiveInteger L v (Some (the_default ''Odometer'' f))
       (Some \<lparr>opt_min = Some (Fin 0), opt_max = Some (Fin 10000000), allowEmpty = Some True\<rparr>) \<and>
   validateOdometer L v f =
     PositiveIntegerValidator_spec L v (the_default ''Odometer'' f) (Fin 0) (Fin 10000000) True"
  by (simp add: validateYear_def validateOdometer_def validatePositiveInteger_def
        PositiveIntegerValidator_spec_def isEmptyInput_def Let_def isNaN_def js_gt_def
        the_default_def)

text \<open>
  The example of the specification: in 2026 the year 2050 is above the bound 2028, and
  the message ends with that bound as the locale formats it.
\<close>

lemma validateYear_2050:
  "validateYear L (Fin 2026) (JStr ''2050'') None =
     \<lparr>isValid = False, val = None, error = Some (''Year must be at most '' @ L (Fin 2028))\<rparr>"
  by (simp add: validateYear_def validator_defs parse_defs round64_numeral)

section \<open>Strings that start with digits\<close>

lemma round_half_even_nonneg: "0 \<le> q \<Longrightarrow> 0 \<le> round_half_even q"
  by (simp add: round_half_even_def Let_def)

lemma round64_not_NaN: "round64 q \<noteq> NaN"
  by (simp add: round64_def Let_def)

lemma round64_nonneg: "0 \<le> q \<Longrightarrow> \<not> js_lt (round64 q) (Fin 0)"
proof -
  assume q: "0 \<le> q"
  define u where "u = (2::rat) powi (max (binexp 1100 \<bar>q\<bar>) (- 1022) - 52)"
  have u: "0 < u" by (simp add: u_def)
  have "0 \<le> \<bar>q\<bar> / u" using u by simp
  then have "0 \<le> round_half_even (\<bar>q\<bar> / u)" by (rule round_half_even_nonneg)
  then have "0 \<le> sgn q * (of_int (round_half_even (\<bar>q\<bar> / u)) * u)"
    using q u by (simp add: sgn_if)
  then show ?thesis
    using q unfolding round64_def Let_def u_def by simp
qed

lemma digitsVal_snoc: "digitsVal (ds @ [c]) = 10 * digitsVal ds + digitVal c"
  by (simp add: digitsVal_def)

lemma digitsVal_nonneg: "\<forall>c\<in>set ds. isDigit c \<Longrightarrow> 0 \<le> digitsVal ds"
proof (induction ds rule: rev_induct)
  case Nil
  then show ?case by (simp add: digitsVal_def)
next
  case (snoc c ds)
  then have "0 \<le> digitsVal ds" by simp
  moreover have "0 \<le> digitVal c" using snoc.prems by (simp add: isDigit_def digitVal_def)
  ultimately show ?case by (simp add: digitsVal_snoc)
qed

lemma takeWhile_digits:
  "\<forall>c\<in>set ds. isDigit c \<Longrightarrow> rest = [] \<or> \<not> isDigit (hd rest) \<Longrightarrow>
   takeWhile isDigit (ds @ rest) = ds \<and> dropWhile isDigit (ds @ rest) = rest"
  by (cases rest) (simp_all add: takeWhile_append2 dropWhile_append2)

lemma digit_not_space: "isDigit c \<Longrightarrow> \<not> isWhiteSpace c \<and> c \<noteq> CHR ''-'' \<and> c \<noteq> CHR ''+''"
  by (auto simp: isDigit_def isWhiteSpace_def)

text \<open>A string that starts with a digit has no white space and no sign to remove.\<close>

lemma splitSign_digits:
  assumes "ds \<noteq> []" and "\<forall>c\<in>set ds. isDigit c"
  shows "splitSign (trimStart (ds @ rest)) = (1, ds @ rest)"
proof -
  obtain d ds' where d: "ds = d # ds'" using assms(1) by (cases ds) auto
  with assms(2) have "isDigit d" by simp
  then show ?thesis using digit_not_space[of d] by (simp add: d trimStart_def)
qed

lemma parseInt10_digits:
  assumes "ds \<noteq> []" and "\<forall>c\<in>set ds. isDigit c" and "rest = [] \<or> \<not> isDigit (hd rest)"
  shows "parseInt10 (JStr (ds @ rest)) = round64 (of_int (digitsVal ds))"
  using assms takeWhile_digits[OF assms(2,3)] splitSign_digits[OF assms(1,2), of rest]
  by (simp add: parseInt10_def parseInt10_str_def)

lemma not_Infinity_digits:
  assumes "ds \<noteq> []" and "\<forall>c\<in>set ds. isDigit c"
  shows "take 8 (ds @ rest) \<noteq> ''Infinity''"
proof -
  obtain d ds' where d: "ds = d # ds'" using assms(1) by (cases ds) auto
  with assms(2) have "isDigit d" by simp
  then have "d \<noteq> CHR ''I''" by (auto simp: isDigit_def)
  then show ?thesis by (auto simp: d)
qed

lemma exponentPart_none: "rest = [] \<or> (hd rest \<noteq> CHR ''e'' \<and> hd rest \<noteq> CHR ''E'') \<Longrightarrow> exponentPart rest = 0"
  by (cases rest) auto

lemma parseFloat_digits:
  assumes "ds \<noteq> []" and "\<forall>c\<in>set ds. isDigit c"
    and "rest = [] \<or> (\<not> isDigit (hd rest) \<and> hd rest \<notin> {CHR ''.'', CHR ''e'', CHR ''E''})"
  shows "parseFloat (JStr (ds @ rest)) = round64 (of_int (digitsVal ds))"
proof -
  from assms(3) have r: "rest = [] \<or> \<not> isDigit (hd rest)" by blast
  from assms(3) have e: "exponentPart rest = 0" by (intro exponentPart_none) auto
  from assms(3) have dot: "\<not> (rest \<noteq> [] \<and> hd rest = CHR ''.'')" by auto
  have tw: "takeWhile isDigit (ds @ rest) = ds" "dropWhile isDigit (ds @ rest) = rest"
    using takeWhile_digits[OF assms(2) r] by simp_all
  have "strUnsigned (ds @ rest) = Some (of_int (digitsVal ds))"
    unfolding strUnsigned_def tw Let_def using dot e assms(1) by auto
  then show ?thesis
    using splitSign_digits[OF assms(1,2), of rest] not_Infinity_digits[OF assms(1,2), of rest]
    by (simp add: parseFloat_def parseFloat_str_def)
qed

section \<open>Reading back what Number-to-String writes\<close>

lemma digitChar_props: "0 \<le> d \<Longrightarrow> d < 10 \<Longrightarrow> isDigit (digitChar d) \<and> digitVal (digitChar d) = d"
proof -
  assume "0 \<le> d" "d < 10"
  then have "d \<in> {0, 1, 2, 3, 4, 5, 6, 7, 8, 9}" by simp presburger
  then show ?thesis
    by (auto simp: digitChar_def isDigit_def digitVal_def)
qed

lemma digits10_nonempty: "digits10 s \<noteq> []"
  by (subst digits10.simps) simp

lemma digits10_props:
  "0 \<le> s \<Longrightarrow> (\<forall>c\<in>set (digits10 s). isDigit c) \<and> digitsVal (digits10 s) = s"
proof (induction s rule: digits10.induct)
  case (1 n)
  show ?case
  proof (cases "n < 10")
    case True
    with "1.prems" digitChar_props[of n] show ?thesis
      by (subst (1 2) digits10.simps) (simp add: digitsVal_def)
  next
    case False
    then have ih: "(\<forall>c\<in>set (digits10 (n div 10)). isDigit c) \<and> digitsVal (digits10 (n div 10)) = n div 10"
      using "1.IH" "1.prems" by simp
    have m: "isDigit (digitChar (n mod 10)) \<and> digitVal (digitChar (n mod 10)) = n mod 10"
      by (rule digitChar_props) simp_all
    from False ih m show ?thesis
      by (subst (1 2) digits10.simps) (simp add: digitsVal_snoc)
  qed
qed

lemma digitsVal_append:
  "digitsVal (a @ b) = digitsVal a * 10 ^ length b + digitsVal b"
proof (induction b rule: rev_induct)
  case Nil
  then show ?case by (simp add: digitsVal_def)
next
  case (snoc c b)
  have "digitsVal (a @ b @ [c]) = 10 * digitsVal (a @ b) + digitVal c"
    using digitsVal_snoc[of "a @ b" c] by simp
  then show ?case by (simp add: snoc.IH digitsVal_snoc algebra_simps)
qed

lemma isDigit_zero: "isDigit CHR ''0''" and digitVal_zero: "digitVal CHR ''0'' = 0"
  by (simp_all add: isDigit_def digitVal_def)

lemma digitsVal_zeros: "digitsVal (replicate z CHR ''0'') = 0"
proof (induction z)
  case 0
  then show ?case by (simp add: digitsVal_def)
next
  case (Suc z)
  have "replicate (Suc z) CHR ''0'' = replicate z CHR ''0'' @ [CHR ''0'']"
    by (simp add: replicate_append_same)
  then show ?case by (simp only: digitsVal_snoc Suc.IH digitVal_zero)
qed


lemma parseFloat_str_unsigned:
  assumes "isDigit d" and "strUnsigned (d # cs) = Some m"
  shows "parseFloat_str (d # cs) = round64 m"
proof -
  have "d \<noteq> CHR ''I''" using assms(1) by (auto simp: isDigit_def)
  then show ?thesis
    using digit_not_space[OF assms(1)] assms(2)
    by (simp add: parseFloat_str_def trimStart_def)
qed

lemma exponent_letter: "\<not> isDigit CHR ''e''" "CHR ''e'' \<noteq> CHR ''.''" "\<not> isDigit CHR ''.''"
  "\<not> isDigit CHR ''-''" "\<not> isDigit CHR ''+''"
  by (simp_all add: isDigit_def)

text \<open>The exponent part that \<open>formatDigits\<close> writes reads back as the exponent.\<close>

lemma exponentPart_written:
  assumes "e \<noteq> 0"
  shows "exponentPart (''e'' @ (if e < 0 then ''-'' else ''+'') @ digits10 \<bar>e\<bar>) = e"
proof -
  define w where "w = digits10 \<bar>e\<bar>"
  have p: "(\<forall>c\<in>set w. isDigit c) \<and> digitsVal w = \<bar>e\<bar>"
    unfolding w_def by (rule digits10_props) simp
  then have tw: "takeWhile isDigit w = w" by simp
  have ne: "w \<noteq> []" by (simp add: w_def digits10_nonempty)
  show ?thesis
    unfolding w_def[symmetric] using p ne assms by (simp add: tw)
qed

lemma strUnsigned_layout1:
  assumes "ds \<noteq> []" and "\<forall>c\<in>set ds. isDigit c"
  shows "strUnsigned (ds @ replicate z CHR ''0'') = Some (of_int (digitsVal ds) * 10 ^ z)"
proof -
  have "\<forall>c\<in>set (ds @ replicate z CHR ''0''). isDigit c"
    using assms(2) by (auto simp: isDigit_zero)
  then have tw: "takeWhile isDigit (ds @ replicate z CHR ''0'') = ds @ replicate z CHR ''0''"
    "dropWhile isDigit (ds @ replicate z CHR ''0'') = []"
    by (simp_all add: isDigit_zero)
  show ?thesis unfolding strUnsigned_def tw Let_def
    using assms(1) by (simp add: digitsVal_append digitsVal_zeros)
qed

lemma strUnsigned_layout2:
  assumes "ip \<noteq> []" and "\<forall>c\<in>set ip. isDigit c" and "\<forall>c\<in>set fp. isDigit c"
    and "r = [] \<or> \<not> isDigit (hd r)"
  shows "strUnsigned (ip @ ''.'' @ fp @ r) =
     Some (of_int (digitsVal (ip @ fp)) * 10 powi (exponentPart r - int (length fp)))"
proof -
  have tw: "takeWhile isDigit (ip @ ''.'' @ fp @ r) = ip" "dropWhile isDigit (ip @ ''.'' @ fp @ r) = ''.'' @ fp @ r"
    using takeWhile_digits[OF assms(2), of "''.'' @ fp @ r"] by (simp_all add: exponent_letter)
  have tw2: "takeWhile isDigit (fp @ r) = fp" "dropWhile isDigit (fp @ r) = r"
    using takeWhile_digits[OF assms(3,4)] by simp_all
  show ?thesis unfolding strUnsigned_def tw Let_def
    using assms(1) by (simp add: tw2)
qed

lemma strUnsigned_layout4a:
  assumes "ds \<noteq> []" and "\<forall>c\<in>set ds. isDigit c" and "r \<noteq> []" and "hd r = CHR ''e''"
  shows "strUnsigned (ds @ r) = Some (of_int (digitsVal ds) * 10 powi (exponentPart r))"
proof -
  have tw: "takeWhile isDigit (ds @ r) = ds" "dropWhile isDigit (ds @ r) = r"
    using takeWhile_digits[OF assms(2), of r] assms(4) by (simp_all add: exponent_letter)
  show ?thesis unfolding strUnsigned_def tw Let_def
    using assms by simp
qed

lemma formatDigits_first_digit:
  assumes "0 < s"
  shows "\<exists>d cs. formatDigits (s, n) = d # cs \<and> isDigit d"
proof -
  obtain d ds' where d: "digits10 s = d # ds'" using digits10_nonempty[of s] by (cases "digits10 s") auto
  have "isDigit d" using digits10_props[of s] assms d by simp
  then show ?thesis
    by (auto simp: formatDigits_def Let_def d isDigit_zero take_Cons')
qed

lemma strUnsigned_format:
  assumes "0 < s"
  shows "strUnsigned (formatDigits (s, n)) =
           Some (of_int s * 10 powi (n - int (length (digits10 s))))"
proof -
  define ds where "ds = digits10 s"
  define k where "k = int (length ds)"
  have ne: "ds \<noteq> []" by (simp add: ds_def digits10_nonempty)
  have D: "\<forall>c\<in>set ds. isDigit c" and V: "digitsVal ds = s"
    using digits10_props[of s] assms by (simp_all add: ds_def)
  have kpos: "0 < k" using ne by (simp add: k_def)
  have goal: "?thesis = (strUnsigned (formatDigits (s, n)) = Some (of_int s * 10 powi (n - k)))"
    by (simp add: k_def ds_def)
  consider (l1) "k \<le> n" "n \<le> 21"
    | (l2) "\<not> (k \<le> n \<and> n \<le> 21)" "0 < n" "n \<le> 21"
    | (l3) "\<not> (k \<le> n \<and> n \<le> 21)" "\<not> (0 < n \<and> n \<le> 21)" "- 6 < n" "n \<le> 0"
    | (l4) "\<not> (k \<le> n \<and> n \<le> 21)" "\<not> (0 < n \<and> n \<le> 21)" "\<not> (- 6 < n \<and> n \<le> 0)"
    by blast
  then show ?thesis
  proof cases
    case l1
    have f: "formatDigits (s, n) = ds @ replicate (nat (n - k)) CHR ''0''"
      using l1 by (simp add: formatDigits_def Let_def ds_def k_def)
    have "(10::rat) ^ nat (n - k) = 10 powi (n - k)" using l1 by (simp add: power_int_def)
    then show ?thesis
      unfolding goal unfolding f using strUnsigned_layout1[OF ne D, of "nat (n - k)"]
      by (simp add: V)
  next
    case l2
    then have nk: "n < k" by linarith
    have f: "formatDigits (s, n) = take (nat n) ds @ ''.'' @ drop (nat n) ds @ []"
      using l2 by (simp add: formatDigits_def Let_def ds_def k_def)
    have a: "take (nat n) ds \<noteq> []" using l2(2) ne by simp
    have b: "\<forall>c\<in>set (take (nat n) ds). isDigit c" using D by (meson in_set_takeD)
    have c: "\<forall>c\<in>set (drop (nat n) ds). isDigit c" using D by (meson in_set_dropD)
    have len: "- int (length ds - nat n) = n - k" using nk l2(2) by (simp add: k_def)
    show ?thesis
      unfolding goal unfolding f using strUnsigned_layout2[OF a b c, of "[]"]
      by (simp add: V len)
  next
    case l3
    have f: "formatDigits (s, n) = ''0'' @ ''.'' @ (replicate (nat (- n)) CHR ''0'' @ ds) @ []"
      using l3 by (simp add: formatDigits_def Let_def ds_def k_def)
    have c: "\<forall>c\<in>set (replicate (nat (- n)) CHR ''0'' @ ds). isDigit c"
      using D by (auto simp: isDigit_zero)
    have v: "digitsVal (''0'' @ replicate (nat (- n)) CHR ''0'' @ ds) = s"
      using digitsVal_append[of "''0'' @ replicate (nat (- n)) CHR ''0''" ds]
        digitsVal_append[of "''0''" "replicate (nat (- n)) CHR ''0''"]
      by (simp add: V digitsVal_zeros) (simp add: digitsVal_def digitVal_zero)
    have len: "- int (length (replicate (nat (- n)) CHR ''0'' @ ds)) = n - k"
      using l3 by (simp add: k_def)
    show ?thesis
      unfolding goal unfolding f
      using strUnsigned_layout2[of "''0''" "replicate (nat (- n)) CHR ''0'' @ ds" "[]"] c v len
      by (simp add: isDigit_zero)
  next
    case l4
    then have e0: "n - 1 \<noteq> 0" by linarith
    have rng: "21 < n \<or> n \<le> - 6" using l4 by linarith
    have c1: "\<not> (k \<le> n \<and> n \<le> 21)" "\<not> (0 < n \<and> n \<le> 21)" "\<not> (- 6 < n \<and> n \<le> 0)"
      using rng kpos by auto
    have fd: "formatDigits (s, n) =
        (if k = 1 then ds @ es0 else [hd ds] @ ''.'' @ tl ds @ es0)"
      if "es0 = ''e'' @ (if n - 1 < 0 then ''-'' else ''+'') @ digits10 \<bar>n - 1\<bar>" for es0
      unfolding formatDigits_def prod.case Let_def ds_def[symmetric] k_def[symmetric]
      by (simp only: c1 if_False that)
    define es where "es = ''e'' @ (if n - 1 < 0 then ''-'' else ''+'') @ digits10 \<bar>n - 1\<bar>"
    have ex: "exponentPart es = n - 1" unfolding es_def by (rule exponentPart_written[OF e0])
    have esne: "es \<noteq> []" "hd es = CHR ''e''" by (simp_all add: es_def)
    show ?thesis
    proof (cases "k = 1")
      case True
      have f: "formatDigits (s, n) = ds @ es"
        using fd[OF es_def] True by simp
      show ?thesis
        unfolding goal unfolding f using strUnsigned_layout4a[OF ne D esne] True
        by (simp add: V ex)
    next
      case False
      obtain d ds' where d: "ds = d # ds'" using ne by (cases ds) auto
      have f: "formatDigits (s, n) = [d] @ ''.'' @ ds' @ es"
        using fd[OF es_def] False by (simp add: d)
      have a: "\<forall>c\<in>set [d]. isDigit c" and b: "\<forall>c\<in>set ds'. isDigit c" using D d by simp_all
      have r: "es = [] \<or> \<not> isDigit (hd es)" using esne by (simp add: exponent_letter)
      have len: "int (length ds') = k - 1" by (simp add: k_def d)
      have "n - 1 - (k - 1) = n - k" by simp
      then show ?thesis
        unfolding goal unfolding f using strUnsigned_layout2[OF _ a b r] V
        by (simp add: ex len d)
    qed
  qed
qed

lemma parseFloat_format:
  assumes "0 < s"
  shows "parseFloat_str (formatDigits (s, n)) =
           round64 (of_int s * 10 powi (n - int (length (digits10 s))))"
proof -
  obtain d cs where f: "formatDigits (s, n) = d # cs" "isDigit d"
    using formatDigits_first_digit[OF assms] by blast
  show ?thesis
    using parseFloat_str_unsigned[OF f(2), of cs] strUnsigned_format[OF assms, of n]
    by (simp add: f(1))
qed

lemma find_hit: "\<exists>c\<in>set L. P c \<Longrightarrow> \<exists>c. find P L = Some c \<and> P c"
  by (induction L) auto

lemma exactDigits_exact:
  assumes "\<exists>i\<le>f. of_int \<lfloor>x * 10 ^ i\<rfloor> = x * 10 ^ i"
  shows "\<exists>s j'. exactDigits f x j = (s, j') \<and> j \<le> j' \<and> of_int s = x * 10 ^ nat (j' - j)"
  using assms
proof (induction f arbitrary: x j)
  case 0
  then show ?case by simp
next
  case (Suc f)
  show ?case
  proof (cases "of_int \<lfloor>x\<rfloor> = x")
    case True
    then show ?thesis by simp
  next
    case False
    from Suc.prems obtain i where i: "i \<le> Suc f" "of_int \<lfloor>x * 10 ^ i\<rfloor> = x * 10 ^ i" by blast
    with False obtain i' where i': "i = Suc i'" by (cases i) auto
    have "\<exists>i\<le>f. of_int \<lfloor>x * 10 * 10 ^ i\<rfloor> = x * 10 * 10 ^ i"
      using i i' by (intro exI[of _ i']) (simp add: mult.assoc)
    from Suc.IH[OF this, of "j + 1"] obtain s j' where
      r: "exactDigits f (x * 10) (j + 1) = (s, j')" "j + 1 \<le> j'"
         "of_int s = x * 10 * 10 ^ nat (j' - (j + 1))"
      by blast
    have "nat (j' - j) = Suc (nat (j' - (j + 1)))" using r(2) by simp
    then have "of_int s = x * 10 ^ nat (j' - j)" using r(3) by simp
    with r False show ?thesis by simp
  qed
qed

lemma double_decimal:
  assumes "is_double x"
  shows "\<exists>i\<le>1100. of_int \<lfloor>x * 10 ^ i\<rfloor> = x * 10 ^ i"
proof (cases "x = 0")
  case True
  then show ?thesis by (intro exI[of _ 0]) simp
next
  case False
  with assms obtain m e where me: "\<bar>x\<bar> = of_int m * 2 powi e" "- 1074 \<le> e"
    by (auto simp: is_double_def)
  define i where "i = nat (- e)"
  have il: "i \<le> 1100" using me(2) by (simp add: i_def)
  have "(2::rat) powi e * 2 ^ i = 2 powi (e + int i)"
    by (simp add: power_int_add)
  also have "\<dots> = of_int (2 ^ nat (e + int i))"
    by (simp add: i_def power_int_def)
  finally have p: "(2::rat) powi e * 2 ^ i = of_int (2 ^ nat (e + int i))" .
  have "(10::rat) ^ i = 2 ^ i * 5 ^ i"
    by (simp flip: power_mult_distrib)
  then have "\<bar>x\<bar> * 10 ^ i = of_int m * (2 powi e * 2 ^ i) * 5 ^ i"
    by (simp add: me(1))
  also have "\<dots> = of_int (m * 2 ^ nat (e + int i) * 5 ^ i)"
    unfolding p by simp
  finally have ax: "\<bar>x\<bar> * 10 ^ i = of_int (m * 2 ^ nat (e + int i) * 5 ^ i)" .
  have "\<exists>z::int. x * 10 ^ i = of_int z"
  proof (cases "0 \<le> x")
    case True
    then show ?thesis using ax by (intro exI[of _ "m * 2 ^ nat (e + int i) * 5 ^ i"]) simp
  next
    case False
    then have "x * 10 ^ i = - (\<bar>x\<bar> * 10 ^ i)" by simp
    then show ?thesis unfolding ax by (intro exI[of _ "- (m * 2 ^ nat (e + int i) * 5 ^ i)"]) simp
  qed
  then obtain z :: int where "x * 10 ^ i = of_int z" by blast
  then have "of_int \<lfloor>x * 10 ^ i\<rfloor> = x * 10 ^ i" by simp
  with il show ?thesis by blast
qed

lemma exactCandidate_roundtrips:
  assumes "is_double x" and "0 < x"
  shows "roundtrips x (exactCandidate x)"
proof -
  from exactDigits_exact[OF double_decimal[OF assms(1)], of 0] obtain s j' where
    r: "exactDigits 1100 x 0 = (s, j')" "0 \<le> j'" "of_int s = x * 10 ^ nat j'"
    by auto
  have "(0::rat) < of_int s" unfolding r(3) using assms(2) by simp
  then have spos: "0 < s" by simp
  have "(10::rat) ^ nat j' * 10 powi (- j') = 1"
    using r(2) by (simp add: power_int_def field_simps)
  then have "of_int s * 10 powi (- j') = x"
    unfolding r(3) by (simp add: mult.assoc)
  then show ?thesis
    using spos round64_exact[OF assms(1)]
    by (simp add: exactCandidate_def r(1) roundtrips_def)
qed

lemma shortest_roundtrips:
  assumes "is_double x" and "0 < x"
  shows "roundtrips x (shortest x)"
proof -
  let ?L = "concat (map (candidates x (decexp 400 x)) [1 ..< 18]) @ [exactCandidate x]"
  have "\<exists>c\<in>set ?L. roundtrips x c"
    using exactCandidate_roundtrips[OF assms] by simp
  from find_hit[OF this] obtain c where "find (roundtrips x) ?L = Some c" "roundtrips x c"
    by blast
  then show ?thesis by (simp add: shortest_def Let_def)
qed

text \<open>Number-to-String followed by \<^verbatim>\<open>parseFloat\<close> gives a positive Number back.\<close>

lemma parseFloat_numberToString:
  assumes "is_double x" and "0 \<le> x"
  shows "parseFloat (JNum (Fin x)) = Fin x"
proof (cases "x = 0")
  case True
  then show ?thesis by (simp add: parse_defs round64_zero)
next
  case False
  with assms(2) have pos: "0 < x" by simp
  obtain s n where sn: "shortest x = (s, n)" by (cases "shortest x")
  from shortest_roundtrips[OF assms(1) pos] have
    r: "0 < s" "round64 (of_int s * 10 powi (n - int (length (digits10 s)))) = Fin x"
    by (simp_all add: roundtrips_def sn)
  show ?thesis
    using pos parseFloat_format[OF r(1), of n] r(2)
    by (simp add: parseFloat_def sn)
qed

section \<open>The range of rounding\<close>

lemma round_half_even_bounds: "\<lfloor>q\<rfloor> \<le> round_half_even q \<and> round_half_even q \<le> \<lfloor>q\<rfloor> + 1"
  by (simp add: round_half_even_def Let_def)

lemma round_half_even_small: "0 \<le> q \<Longrightarrow> q < 1 / 2 \<Longrightarrow> round_half_even q = 0"
proof -
  assume a: "0 \<le> q" "q < 1 / 2"
  then have "\<lfloor>q\<rfloor> = 0" by (simp add: floor_eq_iff)
  then show ?thesis using a by (simp add: round_half_even_def Let_def)
qed

lemma binexp_range: "- int n \<le> binexp n q \<and> binexp n q \<le> int n"
proof (induction n arbitrary: q)
  case 0
  then show ?case by simp
next
  case (Suc n)
  from Suc[of "q / 2"] Suc[of "q * 2"] show ?case by simp
qed

lemma powi2_add: "(2::rat) powi (x + y) = 2 powi x * 2 powi y"
  by (simp add: power_int_add)

lemma powi2_split: "(2::rat) powi x = 2 powi k * 2 powi (x - k)"
  using powi2_add[of k "x - k"] by simp

lemma tiny_quotient:
  assumes "(a::rat) < 2 powi (- 1100)" and "2 powi (- 1074) \<le> u" and "0 \<le> a"
  shows "a / u < 1 / 2"
proof -
  define A where "A = (2::rat) powi (- 1100)"
  define U where "U = (2::rat) powi (- 1074)"
  have Upos: "0 < U" by (simp add: U_def)
  have AU: "A = 2 powi (- 26) * U" unfolding A_def U_def by (simp flip: powi2_add)
  have upos: "0 < u" using assms(2) Upos unfolding U_def by linarith
  have "a / u \<le> a / U" using assms(2,3) Upos unfolding U_def by (intro divide_left_mono) simp_all
  also have "\<dots> < A / U" using assms(1) Upos unfolding A_def by (intro divide_strict_right_mono)
  also have "\<dots> = 2 powi (- 26)" using Upos by (simp add: AU)
  also have "\<dots> < 1 / 2" by (simp add: power_int_minus)
  finally show ?thesis .
qed

lemma huge_product:
  assumes "(2::rat) powi 1101 \<le> a" and "u \<le> 2 powi 1048" and "a - u < x"
  shows "2 powi 1024 < x"
proof -
  define A where "A = (2::rat) powi 1048"
  have Apos: "0 < A" by (simp add: A_def)
  have a1: "(2::rat) powi 1101 = 2 powi 53 * A" unfolding A_def by (simp flip: powi2_add)
  have a2: "(2::rat) powi 1024 \<le> 1 * A" unfolding A_def by (simp add: powi2_mono)
  have "(2::rat) powi 53 * A - A = (2 powi 53 - 1) * A" by (simp add: algebra_simps)
  moreover have "1 * A \<le> (2 powi 53 - 1) * A" using Apos by (intro mult_right_mono) simp_all
  ultimately have "2 powi 1024 \<le> 2 powi 53 * A - A" using a2 by linarith
  moreover have "2 powi 53 * A - A \<le> a - u" using assms(1,2) unfolding a1 A_def by linarith
  ultimately show ?thesis using assms(3) by linarith
qed


text \<open>Every finite result of \<open>round64\<close> is a binary64 value.\<close>

lemma round64_is_double:
  assumes "round64 q = Fin r"
  shows "is_double r"
proof -
  define a where "a = \<bar>q\<bar>"
  define b where "b = binexp 1100 a"
  define e where "e = max b (- 1022)"
  define u where "u = (2::rat) powi (e - 52)"
  define T where "T = a / u"
  define M where "M = round_half_even T"
  have upos: "0 < u" by (simp add: u_def)
  have Tnn: "0 \<le> T" using upos by (simp add: T_def a_def)
  have Mnn: "0 \<le> M" unfolding M_def using Tnn by (rule round_half_even_nonneg)
  have eq: "round64 q = (if 2 powi 1024 \<le> of_int M * u then (if q < 0 then NInf else PInf)
                          else if q < 0 \<and> of_int M * u = 0 then NZero
                          else Fin (sgn q * (of_int M * u)))"
    unfolding round64_def Let_def a_def b_def e_def u_def T_def M_def by (rule refl)
  from assms have nov: "of_int M * u < 2 powi 1024" and r: "r = sgn q * (of_int M * u)"
    unfolding eq by (simp_all split: if_splits)
  have ege: "- 1022 \<le> e" by (simp add: e_def)
  have Tu: "T * u = a" using upos by (simp add: T_def)
  show ?thesis
  proof (cases "M = 0")
    case True
    then show ?thesis by (simp add: r is_double_def)
  next
    case False
    with Mnn have Mpos: "0 < M" by simp
    have qne: "q \<noteq> 0"
    proof
      assume "q = 0"
      then have "T = 0" by (simp add: T_def a_def)
      then have "M = 0" by (simp add: M_def round_half_even_def)
      with False show False by simp
    qed
    have absr: "\<bar>r\<bar> = of_int M * u"
      using qne Mnn upos by (simp add: r abs_mult sgn_if)
    have fl: "\<lfloor>T\<rfloor> \<le> M" "M \<le> \<lfloor>T\<rfloor> + 1"
      using round_half_even_bounds[of T] by (simp_all add: M_def)
    have lowa: "2 powi (- int 1100) \<le> a"
    proof (rule ccontr)
      assume "\<not> 2 powi (- int 1100) \<le> a"
      then have "a < 2 powi (- 1100)" by simp
      moreover have "(2::rat) powi (- 1074) \<le> u"
        unfolding u_def using ege by (intro powi2_mono) simp
      ultimately have "T < 1 / 2" unfolding T_def by (intro tiny_quotient) (simp_all add: a_def)
      then have "M = 0" unfolding M_def using Tnn by (intro round_half_even_small)
      with False show False by simp
    qed
    have higha: "a < 2 powi (int 1100 + 1)"
    proof (rule ccontr)
      assume "\<not> a < 2 powi (int 1100 + 1)"
      then have big: "2 powi 1101 \<le> a" by simp
      have "e \<le> 1100" using binexp_range[of 1100 a] by (simp add: e_def b_def)
      then have ule: "u \<le> 2 powi 1048" unfolding u_def by (intro powi2_mono) simp
      have "T - 1 < of_int \<lfloor>T\<rfloor>" by linarith
      also have "\<dots> \<le> of_int M" using fl(1) by simp
      finally have "(T - 1) * u < of_int M * u" using upos by simp
      then have "a - u < of_int M * u" using Tu by (simp add: algebra_simps)
      with big ule have "2 powi 1024 < of_int M * u" by (intro huge_product)
      with nov show False by simp
    qed
    from binexp_bounds[OF lowa higha] have bb: "2 powi b \<le> a" "a < 2 powi (b + 1)"
      by (simp_all add: b_def)
    define c52 where "c52 = (2::rat) powi 52"
    define c53 where "c53 = (2::rat) powi 53"
    have c52i: "c52 = of_int (2 ^ 52)" and c53i: "c53 = of_int (2 ^ 53)"
      by (simp_all add: c52_def c53_def)
    have ue: "c52 * u = 2 powi e"
      unfolding c52_def u_def using powi2_split[of e 52] by simp
    show ?thesis
    proof (cases "- 1022 \<le> b")
      case True
      then have eb: "e = b" by (simp add: e_def)
      have "b + 1 - 53 = e - 52" by (simp add: eb)
      then have ue1: "c53 * u = 2 powi (b + 1)"
        unfolding c53_def u_def using powi2_split[of "b + 1" 53] by simp
      from bb have "c52 * u \<le> T * u" "T * u < c53 * u" by (simp_all add: Tu ue ue1 eb)
      then have Tr: "c52 \<le> T" "T < c53" using upos by simp_all
      have "2 ^ 52 \<le> \<lfloor>T\<rfloor>" using Tr(1) unfolding c52i by (simp only: le_floor_iff)
      then have Mlo: "2 ^ 52 \<le> M" using fl(1) by linarith
      have "\<lfloor>T\<rfloor> < 2 ^ 53" using Tr(2) unfolding c53i by (simp only: floor_less_iff)
      then have Mhi: "M \<le> 2 ^ 53" using fl(2) by linarith
      have "c52 \<le> of_int M" unfolding c52i using Mlo by (simp only: of_int_le_iff)
      then have "c52 * u \<le> of_int M * u" using upos by simp
      then have "(2::rat) powi e < 2 powi 1024" using nov unfolding ue by linarith
      then have ele: "e < 1024" by (rule powi2_less_D)
      show ?thesis
      proof (cases "M < 2 ^ 53")
        case True
        have "\<bar>r\<bar> = of_int M * 2 powi (e - 52) \<and> 0 < M \<and> M < 2 ^ 53 \<and> - 1074 \<le> e - 52
            \<and> e - 52 \<le> 971"
          using absr Mpos True ege ele by (simp add: u_def)
        then show ?thesis unfolding is_double_def by blast
      next
        case False
        with Mhi have M53: "M = 2 ^ 53" by simp
        have m53: "of_int M = c53" by (simp add: M53 c53i)
        have "of_int M * u = 2 powi (e + 1)" unfolding m53 ue1 eb ..
        with nov have "(2::rat) powi (e + 1) < 2 powi 1024" by simp
        then have e1: "e + 1 < 1024" by (rule powi2_less_D)
        have "e + 1 - 52 = e - 51" by simp
        then have "(2::rat) powi (e + 1) = c52 * 2 powi (e - 51)"
          unfolding c52_def using powi2_split[of "e + 1" 52] by simp
        then have "of_int M * u = of_int (2 ^ 52) * 2 powi (e - 51)"
          unfolding m53 ue1 eb c52i by simp
        then have "\<bar>r\<bar> = of_int (2 ^ 52) * 2 powi (e - 51) \<and> (0::int) < 2 ^ 52
            \<and> (2::int) ^ 52 < 2 ^ 53 \<and> - 1074 \<le> e - 51 \<and> e - 51 \<le> 971"
          using absr ege e1 by simp
        then show ?thesis unfolding is_double_def by blast
      qed
    next
      case False
      then have eb: "e = - 1022" by (simp add: e_def)
      have "(2::rat) powi (b + 1) \<le> 2 powi e" unfolding eb using False by (intro powi2_mono) simp
      then have "T * u < c52 * u" using bb(2) by (simp add: Tu ue)
      then have "T < c52" using upos by simp
      then have "\<lfloor>T\<rfloor> < 2 ^ 52" unfolding c52i by (simp only: floor_less_iff)
      then have "M \<le> 2 ^ 52" using fl(2) by linarith
      then have "\<bar>r\<bar> = of_int M * 2 powi (- 1074) \<and> 0 < M \<and> M < 2 ^ 53
            \<and> - 1074 \<le> (- 1074::int) \<and> (- 1074::int) \<le> 971"
        using absr Mpos by (simp add: u_def eb)
      then show ?thesis unfolding is_double_def by blast
    qed
  qed
qed

lemma is_double_minus: "is_double (- q) = is_double q"
  by (simp add: is_double_def)

lemma js_neg_double:
  assumes "js_neg x = Fin r" and "\<And>r'. x = Fin r' \<Longrightarrow> is_double r'"
  shows "is_double r"
proof (cases x)
  case (Fin r')
  with assms(1) have "r = - r'" by (simp split: if_splits)
  with assms(2)[OF Fin] show ?thesis by (simp add: is_double_minus)
next
  case NZero
  with assms(1) show ?thesis by (simp add: is_double_def)
qed (use assms(1) in simp_all)

lemma withSign_double:
  assumes "withSign sg (round64 m) = Fin r"
  shows "is_double r"
proof (cases "sg < 0")
  case True
  with assms have "js_neg (round64 m) = Fin r" by (simp add: withSign_def)
  then show ?thesis by (rule js_neg_double) (rule round64_is_double)
next
  case False
  with assms have "round64 m = Fin r" by (simp add: withSign_def)
  then show ?thesis by (rule round64_is_double)
qed

lemma parseFloat_str_double: "parseFloat_str s = Fin r \<Longrightarrow> is_double r"
  by (auto simp: parseFloat_str_def Let_def withSign_double withSign_def
      split: prod.splits if_splits option.splits)

lemma is_double_pow10_21: "is_double (10 ^ 21)"
proof -
  have "\<bar>10 ^ 21 :: rat\<bar> = of_int 476837158203125 * 2 powi 21 \<and> (0::int) < 476837158203125
     \<and> (476837158203125::int) < 2 ^ 53 \<and> - 1074 \<le> (21::int) \<and> (21::int) \<le> 971"
    by simp
  then show ?thesis unfolding is_double_def by blast
qed

lemma numberToString_pow10_21: "numberToString (Fin 1000000000000000000000) = ''1e+21''"
proof -
  have r64: "round64 (10 ^ 21) = Fin (10 ^ 21)" using is_double_pow10_21 by (rule round64_exact)
  have d: "decexp 400 (10 ^ 21) = 22" by (simp add: decexp_numeral)
  have c: "hd (candidates (10 ^ 21) 22 1) = (1, 22)" by (simp add: candidates_def power_int_minus)
  have r: "roundtrips (10 ^ 21) (1, 22)"
    using r64 by (simp add: roundtrips_def digits10.simps)
  have "shortest (10 ^ 21) = (1, 22)" using shortest_first[OF r] c d by simp
  then show ?thesis by (simp add: formatDigits_def digits10.simps digitChar_def)
qed

section \<open>How integers are printed\<close>

lemma powi10_suc: "(10::rat) powi (a + 1) = 10 powi a * 10"
  by (simp add: power_int_add)

lemma powi10_pred: "(10::rat) powi (a - 1) = 10 powi a / 10"
  by (simp add: power_int_diff)

lemma powi10_mono: "a \<le> b \<Longrightarrow> (10::rat) powi a \<le> 10 powi b"
  by (rule power_int_increasing) simp_all

lemma powi10_less_D: "(10::rat) powi a < 10 powi b \<Longrightarrow> a < b"
  using powi10_mono[of b a] by (cases "a < b") auto

text \<open>With enough fuel, \<open>decexp\<close> is the decimal exponent.\<close>

lemma decexp_bounds:
  "10 powi (- int n - 1) \<le> q \<Longrightarrow> q < 10 powi (int n) \<Longrightarrow>
   10 powi (decexp n q - 1) \<le> q \<and> q < 10 powi (decexp n q)"
proof (induction n arbitrary: q)
  case 0
  then show ?case by (simp add: power_int_minus)
next
  case (Suc n)
  have "int (Suc n) = int n + 1" by simp
  then have eq1: "(10::rat) powi (int (Suc n)) = 10 powi (int n) * 10"
    by (simp only: powi10_suc)
  have "- int (Suc n) - 1 = (- int n - 1) - 1" by simp
  then have eq2: "(10::rat) powi (- int (Suc n) - 1) = 10 powi (- int n - 1) / 10"
    by (simp only: powi10_pred)
  have "(10::rat) powi (- int n - 1) \<le> 10 powi (- 1)" by (intro powi10_mono) simp
  then have le1: "10 powi (- int n - 1) \<le> (1 / 10 :: rat)" by (simp add: power_int_minus)
  have ge1: "(1::rat) \<le> 10 powi (int n)"
    by (simp add: one_le_power_int)
  show ?case
  proof (cases "1 \<le> q")
    case True
    have b: "10 powi (- int n - 1) \<le> q / 10" using True le1 by linarith
    have c: "q / 10 < 10 powi (int n)" using Suc.prems(2) eq1 by simp
    define d where "d = decexp n (q / 10)"
    from Suc.IH[OF b c] have h: "10 powi (d - 1) \<le> q / 10" "q / 10 < 10 powi d"
      by (simp_all add: d_def)
    have v: "decexp (Suc n) q = d + 1" using True by (simp add: d_def)
    have "10 powi (d + 1 - 1) \<le> q" using h(1) powi10_pred[of d] by simp
    moreover have "q < 10 powi (d + 1)" using h(2) powi10_suc[of d] by linarith
    ultimately show ?thesis unfolding v by blast
  next
    case False
    show ?thesis
    proof (cases "q < 1 / 10")
      case True
      have b: "10 powi (- int n - 1) \<le> q * 10" using Suc.prems(1) eq2 by simp
      have c: "q * 10 < 10 powi (int n)" using True ge1 by linarith
      define d where "d = decexp n (q * 10)"
      from Suc.IH[OF b c] have h: "10 powi (d - 1) \<le> q * 10" "q * 10 < 10 powi d"
        by (simp_all add: d_def)
      have v: "decexp (Suc n) q = d - 1" using True False by (simp add: d_def)
      have "10 powi (d - 1 - 1) \<le> q" using h(1) powi10_pred[of "d - 1"] by linarith
      moreover have "q < 10 powi (d - 1)" using h(2) powi10_pred[of d] by linarith
      ultimately show ?thesis unfolding v by blast
    next
      case False
      with \<open>\<not> 1 \<le> q\<close> show ?thesis by (simp add: power_int_minus)
    qed
  qed
qed

lemma digits10_length:
  "0 < k \<Longrightarrow> 10 ^ (k - 1) \<le> s \<Longrightarrow> s < 10 ^ k \<Longrightarrow> length (digits10 s) = k"
proof (induction k arbitrary: s)
  case 0
  then show ?case by simp
next
  case (Suc k)
  show ?case
  proof (cases "k = 0")
    case True
    with Suc.prems have "s < 10" by simp
    then show ?thesis using True by (subst digits10.simps) simp
  next
    case False
    then have k: "0 < k" by simp
    then obtain j where j: "k = Suc j" by (cases k) auto
    have s10: "10 \<le> s"
    proof -
      have "(10::int) \<le> 10 ^ k" unfolding j by simp
      then show ?thesis using Suc.prems(2) by simp
    qed
    have a: "10 ^ (k - 1) \<le> s div 10"
    proof -
      have "(10::int) ^ (k - 1) * 10 = 10 ^ k" unfolding j by simp
      then have "10 ^ (k - 1) * 10 \<le> s" using Suc.prems(2) by simp
      then show ?thesis by simp
    qed
    have b: "s div 10 < 10 ^ k" using Suc.prems(3) by simp
    have "length (digits10 (s div 10)) = k" by (rule Suc.IH[OF k a b])
    then show ?thesis using s10 by (subst digits10.simps) simp
  qed
qed

lemma find_prefix:
  "P g \<Longrightarrow> G g \<Longrightarrow> \<forall>c\<in>set A. P c \<longrightarrow> G c \<Longrightarrow> \<exists>c. find P (A @ g # C) = Some c \<and> P c \<and> G c"
  by (induction A) auto

lemma powi10_add: "(10::rat) powi (x + y) = 10 powi x * 10 powi y"
  by (simp add: power_int_add)

lemma powi10_nat: "(10::rat) powi (int k) = of_int (10 ^ k)"
  by simp

text \<open>Every candidate has the requested number of digits.\<close>

lemma candidates_shape:
  assumes "0 < k" and "10 powi (n - 1) \<le> x" and "x < 10 powi n"
  shows "\<forall>c\<in>set (candidates x n k).
           length (digits10 (fst c)) = k \<and> 0 < fst c \<and>
           (snd c = n \<or> (snd c = n + 1 \<and> fst c = 10 ^ (k - 1)))"
proof -
  define t where "t = x * 10 powi (int k - n)"
  define lo where "lo = \<lfloor>t\<rfloor>"
  have p: "(0::rat) < 10 powi (int k - n)" by simp
  have "10 powi (n - 1) * 10 powi (int k - n) \<le> t" "t < 10 powi n * 10 powi (int k - n)"
    unfolding t_def using assms(2,3) p by simp_all
  moreover have "(10::rat) powi (n - 1) * 10 powi (int k - n) = 10 powi (int (k - 1))"
    using assms(1) by (simp flip: powi10_add add: of_nat_diff)
  moreover have "(10::rat) powi n * 10 powi (int k - n) = 10 powi (int k)"
    by (simp flip: powi10_add)
  ultimately have tb: "of_int (10 ^ (k - 1)) \<le> t" "t < of_int (10 ^ k)"
    by (simp_all only: powi10_nat)
  have l1: "10 ^ (k - 1) \<le> lo" unfolding lo_def using tb(1) by (simp only: le_floor_iff)
  have l2: "lo < 10 ^ k" unfolding lo_def using tb(2) by (simp only: floor_less_iff)
  have lpos: "0 < lo" using l1 by (smt (verit) zero_less_power)
  have len_lo: "length (digits10 lo) = k" by (rule digits10_length[OF assms(1) l1 l2])
  have len_hi: "lo + 1 \<noteq> 10 ^ k \<Longrightarrow> length (digits10 (lo + 1)) = k"
    using l1 l2 by (intro digits10_length[OF assms(1)]) simp_all
  have len_p: "length (digits10 (10 ^ (k - 1))) = k"
    using assms(1) by (intro digits10_length) simp_all
  have "set (candidates x n k) =
      {(lo, n), (if lo + 1 = 10 ^ k then (10 ^ (k - 1), n + 1) else (lo + 1, n))}"
    by (auto simp: candidates_def Let_def t_def lo_def)
  then show ?thesis
    using len_lo len_hi len_p lpos by auto
qed


lemma exactDigits_integer: "of_int \<lfloor>x\<rfloor> = x \<Longrightarrow> exactDigits f x j = (\<lfloor>x\<rfloor>, j)"
  by (cases f) simp_all

text \<open>
  An integer below \<open>10\<^sup>2\<^sup>1\<close> is printed without a fraction and without an exponent: its
  digits, possibly followed by zeros.
\<close>

lemma shortest_integer_layout:
  assumes "is_double (of_int X)" and "0 < X" and "X < 10 ^ 21"
  shows "\<exists>s n. shortest (of_int X) = (s, n) \<and> roundtrips (of_int X) (s, n) \<and>
           int (length (digits10 s)) \<le> n \<and> n \<le> 21"
proof -
  define x where "x = (of_int X :: rat)"
  define n0 where "n0 = decexp 400 x"
  have x1: "1 \<le> x" using assms(2) by (simp add: x_def)
  have "x < of_int (10 ^ 21)" unfolding x_def using assms(3) by (simp only: of_int_less_iff)
  then have xlt: "x < 10 powi 21" by simp
  have "(10::rat) powi (- int 400 - 1) \<le> 10 powi 0" by (intro powi10_mono) simp
  then have f1: "10 powi (- int 400 - 1) \<le> x" using x1 by simp
  have "(10::rat) powi 21 \<le> 10 powi (int 400)" by (intro powi10_mono) simp
  then have f2: "x < 10 powi (int 400)" using xlt by linarith
  from decexp_bounds[OF f1 f2] have nb: "10 powi (n0 - 1) \<le> x" "x < 10 powi n0"
    by (simp_all add: n0_def)
  have "(10::rat) powi 0 < 10 powi n0" using x1 nb(2) by simp
  then have n0pos: "0 < n0" by (rule powi10_less_D)
  have "(10::rat) powi (n0 - 1) < 10 powi 21" using nb(1) xlt by linarith
  then have n0le: "n0 \<le> 21" using powi10_less_D by fastforce
  define N where "N = nat n0"
  have N: "int N = n0" "0 < N" "N \<le> 21" using n0pos n0le by (simp_all add: N_def)
  have e1: "n0 - 1 = int (N - 1)" using N(1,2) by linarith
  have "(10::rat) powi (n0 - 1) = of_int (10 ^ (N - 1))" unfolding e1 by simp
  moreover have "(10::rat) powi n0 = of_int (10 ^ N)" unfolding N(1)[symmetric] by simp
  ultimately have "(of_int (10 ^ (N - 1)) :: rat) \<le> of_int X" "(of_int X :: rat) < of_int (10 ^ N)"
    using nb by (simp_all add: x_def)
  then have Xb: "10 ^ (N - 1) \<le> X" "X < 10 ^ N"
    by (simp_all only: of_int_le_iff of_int_less_iff)
  have lenX: "length (digits10 X) = N" by (rule digits10_length[OF N(2) Xb])
  define g where "g = (X, n0)"
  define G where "G = (\<lambda>c::int \<times> int. int (length (digits10 (fst c))) \<le> snd c \<and> snd c \<le> 21)"
  have r64: "round64 x = Fin x" using assms(1) unfolding x_def by (rule round64_exact)
  have Pg: "roundtrips x g"
    using assms(2) r64 by (simp add: roundtrips_def g_def lenX N(1) x_def)
  have Gg: "G g" using n0le by (simp add: G_def g_def lenX N(1))
  have good: "\<forall>c\<in>set (candidates x n0 k). roundtrips x c \<longrightarrow> G c" if k: "0 < k" "k < N" for k
  proof (intro ballI impI)
    fix c assume c: "c \<in> set (candidates x n0 k)" and rt: "roundtrips x c"
    from candidates_shape[OF k(1) nb] c have
      sh: "length (digits10 (fst c)) = k" "snd c = n0 \<or> (snd c = n0 + 1 \<and> fst c = 10 ^ (k - 1))"
      by blast+
    show "G c"
    proof (cases "snd c = n0")
      case True
      then show ?thesis using sh(1) k(2) N n0le by (simp add: G_def)
    next
      case False
      with sh(2) have b: "snd c = n0 + 1" "fst c = 10 ^ (k - 1)" by simp_all
      have "n0 \<noteq> 21"
      proof
        assume n21: "n0 = 21"
        have "of_int (fst c) * 10 powi (snd c - int (length (digits10 (fst c)))) =
            (of_int (fst c) :: rat) * 10 powi (snd c - int k)"
          by (simp only: sh(1))
        also have "\<dots> = (10::rat) powi (int (k - 1)) * 10 powi (22 - int k)"
          by (simp add: b n21)
        also have "\<dots> = 10 powi 21"
          using k(1) by (simp flip: powi10_add add: of_nat_diff)
        finally have "round64 (10 powi 21) = Fin x"
          using rt by (simp add: roundtrips_def case_prod_unfold)
        moreover have "round64 (10 powi 21) = Fin (10 ^ 21)"
          using round64_exact[OF is_double_pow10_21] by simp
        ultimately have "x = 10 ^ 21" by simp
        with xlt show False by simp
      qed
      with n0le have "n0 + 1 \<le> 21" by simp
      then show ?thesis using sh(1) k(2) N b(1) by (simp add: G_def)
    qed
  qed
  have goodcat: "\<forall>c\<in>set (concat (map (candidates x n0) [1 ..< m])). roundtrips x c \<longrightarrow> G c"
    if m: "m \<le> N" for m
  proof (intro ballI impI)
    fix c assume c: "c \<in> set (concat (map (candidates x n0) [1 ..< m]))" and rt: "roundtrips x c"
    from c obtain k where k: "k \<in> set [1 ..< m]" "c \<in> set (candidates x n0 k)" by auto
    from k(1) m have "0 < k" "k < N" by simp_all
    from good[OF this] k(2) rt show "G c" by blast
  qed
  have dec: "\<exists>A C. concat (map (candidates x n0) [1 ..< 18]) @ [exactCandidate x] = A @ g # C \<and>
               (\<forall>c\<in>set A. roundtrips x c \<longrightarrow> G c)"
  proof (cases "N < 18")
    case True
    have "[1 ..< N + (18 - N)] = [1 ..< N] @ [N ..< N + (18 - N)]"
      using N(2) by (intro upt_add_eq_append) simp
    then have "[1 ..< 18] = [1 ..< N] @ [N ..< 18]" using True by simp
    also have "[N ..< 18] = N # [Suc N ..< 18]" using True by (simp add: upt_conv_Cons)
    finally have u: "[1 ..< 18] = [1 ..< N] @ N # [Suc N ..< 18]" .
    have tx: "x * 10 powi (int N - n0) = x" by (simp add: N(1))
    define c2 where "c2 = (if X + 1 = 10 ^ N then (10 ^ (N - 1), n0 + 1) else (X + 1, n0))"
    have cN: "candidates x n0 N = [g, c2]"
      unfolding candidates_def Let_def tx g_def c2_def by (simp add: x_def)
    have eqL: "concat (map (candidates x n0) [1 ..< 18]) @ [exactCandidate x] =
        concat (map (candidates x n0) [1 ..< N]) @
        g # (c2 # concat (map (candidates x n0) [Suc N ..< 18]) @ [exactCandidate x])"
      unfolding u by (simp add: cN)
    have "\<forall>c\<in>set (concat (map (candidates x n0) [1 ..< N])). roundtrips x c \<longrightarrow> G c"
      by (rule goodcat) simp
    with eqL show ?thesis by blast
  next
    case False
    have "exactCandidate x = g"
      using exactDigits_integer[of x 1100 0] by (simp add: exactCandidate_def x_def g_def lenX N(1))
    moreover have "\<forall>c\<in>set (concat (map (candidates x n0) [1 ..< 18])). roundtrips x c \<longrightarrow> G c"
      using False by (intro goodcat) simp
    ultimately have "concat (map (candidates x n0) [1 ..< 18]) @ [exactCandidate x] =
        concat (map (candidates x n0) [1 ..< 18]) @ g # [] \<and>
        (\<forall>c\<in>set (concat (map (candidates x n0) [1 ..< 18])). roundtrips x c \<longrightarrow> G c)"
      by simp
    then show ?thesis by blast
  qed
  then obtain A C where AC: "concat (map (candidates x n0) [1 ..< 18]) @ [exactCandidate x] = A @ g # C"
    "\<forall>c\<in>set A. roundtrips x c \<longrightarrow> G c" by blast
  from find_prefix[OF Pg Gg AC(2), of C] obtain c where
    c: "find (roundtrips x) (A @ g # C) = Some c" "roundtrips x c" "G c" by blast
  have "shortest x = c"
    unfolding shortest_def Let_def n0_def[symmetric] AC(1) c(1) by simp
  then show ?thesis
    using c(2,3) unfolding x_def[symmetric] by (cases c) (simp add: G_def)
qed

lemma binexp_lower: "2 ^ j \<le> q \<Longrightarrow> j \<le> n \<Longrightarrow> int j \<le> binexp n q"
proof (induction n arbitrary: q j)
  case 0
  then show ?case by simp
next
  case (Suc n)
  show ?case
  proof (cases j)
    case 0
    then have q1: "1 \<le> q" using Suc.prems(1) by simp
    show ?thesis
    proof (cases "2 \<le> q")
      case True
      then have "2 ^ 0 \<le> q / 2" by simp
      from Suc.IH[OF this] True 0 show ?thesis by simp
    next
      case False
      with q1 0 show ?thesis by simp
    qed
  next
    case (Suc j')
    then have "2 * 2 ^ j' \<le> q" using Suc.prems(1) by simp
    moreover have "(1::rat) \<le> 2 ^ j'" by simp
    ultimately have q2: "2 \<le> q" "2 ^ j' \<le> q / 2" by linarith+
    have "j' \<le> n" using Suc.prems(2) Suc by simp
    from Suc.IH[OF q2(2) this] q2(1) Suc show ?thesis by simp
  qed
qed

text \<open>Rounding an integer gives an integer.\<close>

lemma round64_of_int_integral:
  assumes "round64 (of_int z) = Fin r"
  shows "\<exists>X. r = of_int X"
proof (cases "\<bar>z\<bar> < 2 ^ 53")
  case True
  from round64_int[OF True] assms show ?thesis by auto
next
  case False
  define a where "a = \<bar>of_int z :: rat\<bar>"
  define e where "e = max (binexp 1100 a) (- 1022)"
  define M where "M = round_half_even (a / 2 powi (e - 52))"
  have "(2::int) ^ 53 \<le> \<bar>z\<bar>" using False by simp
  then have "(of_int (2 ^ 53) :: rat) \<le> of_int \<bar>z\<bar>" by (simp only: of_int_le_iff)
  then have "2 ^ 53 \<le> a" by (simp add: a_def)
  from binexp_lower[OF this, of 1100] have "53 \<le> e" by (simp add: e_def)
  then have "(2::rat) powi (e - 52) = of_int (2 ^ nat (e - 52))"
    by (simp add: power_int_def)
  moreover have "r = sgn (of_int z) * (of_int M * 2 powi (e - 52))"
    using assms by (simp add: round64_def Let_def a_def e_def M_def split: if_splits)
  moreover have "sgn (of_int z :: rat) = of_int (sgn z)" by (simp add: sgn_if)
  ultimately have "r = of_int (sgn z * (M * 2 ^ nat (e - 52)))"
    by simp
  then show ?thesis by blast
qed

lemma parseInt10_str_integral:
  assumes "parseInt10_str s = Fin r"
  shows "is_double r \<and> (\<exists>X. r = of_int X)"
proof -
  obtain sg S where sp: "splitSign (trimStart s) = (sg, S)" by (cases "splitSign (trimStart s)")
  have sg: "sg = 1 \<or> sg = - 1"
    using sp by (cases "trimStart s") (auto split: if_splits)
  define z where "z = digitsVal (takeWhile isDigit S)"
  from assms sp have r: "withSign sg (round64 (of_int z)) = Fin r"
    by (simp add: parseInt10_str_def Let_def z_def split: if_splits)
  have "\<exists>X. r = of_int X"
  proof (cases "round64 (of_int z)")
    case (Fin r')
    from round64_of_int_integral[OF Fin] obtain X' where "r' = of_int X'" by blast
    with r Fin sg have "r = of_int X' \<or> r = of_int (- X')"
      by (auto simp: withSign_def split: if_splits)
    then show ?thesis by blast
  next
    case NZero
    with r sg have "r = of_int 0" by (auto simp: withSign_def split: if_splits)
    then show ?thesis by blast
  qed (use r sg in \<open>auto simp: withSign_def split: if_splits\<close>)
  with withSign_double[OF r] show ?thesis by simp
qed

text \<open>\<^verbatim>\<open>parseInt\<close> reads the digits-and-zeros layout in full, with or without a sign.\<close>

lemma parseInt10_str_layout1:
  assumes "0 < s" and "int (length (digits10 s)) \<le> n" and "n \<le> 21"
  shows "parseInt10_str (formatDigits (s, n)) =
           round64 (of_int s * 10 powi (n - int (length (digits10 s))))"
    and "parseInt10_str (''-'' @ formatDigits (s, n)) =
           js_neg (round64 (of_int s * 10 powi (n - int (length (digits10 s)))))"
proof -
  define ds where "ds = digits10 s"
  define z where "z = nat (n - int (length ds))"
  have f: "formatDigits (s, n) = ds @ replicate z CHR ''0''"
    using assms(2,3) by (simp add: formatDigits_def Let_def ds_def z_def)
  have D: "\<forall>c\<in>set ds. isDigit c" and V: "digitsVal ds = s"
    using digits10_props[of s] assms(1) by (simp_all add: ds_def)
  obtain d ds' where d: "ds = d # ds'" using digits10_nonempty[of s] by (cases ds) (auto simp: ds_def)
  have dd: "isDigit d" using D d by simp
  have all: "\<forall>c\<in>set (ds @ replicate z CHR ''0''). isDigit c" using D by (auto simp: isDigit_zero)
  then have tw: "takeWhile isDigit (ds @ replicate z CHR ''0'') = ds @ replicate z CHR ''0''"
    by (simp add: isDigit_zero)
  have val: "(of_int (digitsVal (ds @ replicate z CHR ''0'')) :: rat) = of_int s * 10 powi (n - int (length ds))"
    using assms(2) unfolding ds_def[symmetric]
    by (simp add: digitsVal_append digitsVal_zeros V z_def power_int_def)
  have sp: "splitSign (trimStart (ds @ replicate z CHR ''0'')) = (1, ds @ replicate z CHR ''0'')"
    using digit_not_space[OF dd] by (simp add: d trimStart_def)
  have sm: "splitSign (trimStart (''-'' @ ds @ replicate z CHR ''0'')) = (- 1, ds @ replicate z CHR ''0'')"
    by (simp add: trimStart_def isWhiteSpace_def)
  have g1: "parseInt10_str (ds @ replicate z CHR ''0'') =
           round64 (of_int s * 10 powi (n - int (length ds)))"
    unfolding parseInt10_str_def sp Let_def prod.case tw using val by (simp add: d)
  have g2: "parseInt10_str (''-'' @ ds @ replicate z CHR ''0'') =
           js_neg (round64 (of_int s * 10 powi (n - int (length ds))))"
    unfolding parseInt10_str_def sm Let_def prod.case tw using val by (simp add: d)
  show "parseInt10_str (formatDigits (s, n)) =
           round64 (of_int s * 10 powi (n - int (length (digits10 s))))"
    using g1 unfolding f ds_def by simp
  show "parseInt10_str (''-'' @ formatDigits (s, n)) =
           js_neg (round64 (of_int s * 10 powi (n - int (length (digits10 s)))))"
    using g2 unfolding f ds_def by simp
qed

text \<open>Number-to-String followed by \<^verbatim>\<open>parseInt\<close> gives an integer below \<open>10\<^sup>2\<^sup>1\<close> back.\<close>

lemma parseInt10_numberToString:
  assumes "is_double (of_int X)" and "\<bar>X\<bar> < 10 ^ 21"
  shows "parseInt10 (JNum (Fin (of_int X))) = Fin (of_int X)"
proof -
  consider (zero) "X = 0" | (pos) "0 < X" | (neg) "X < 0" by linarith
  then show ?thesis
  proof cases
    case zero
    then show ?thesis by (simp add: parse_defs round64_zero)
  next
    case pos
    from shortest_integer_layout[OF assms(1) pos] assms(2) pos obtain s n where
      sn: "shortest (of_int X) = (s, n)" "roundtrips (of_int X) (s, n)"
          "int (length (digits10 s)) \<le> n" "n \<le> 21"
      by auto
    from sn(2) have s: "0 < s"
      "round64 (of_int s * 10 powi (n - int (length (digits10 s)))) = Fin (of_int X)"
      by (simp_all add: roundtrips_def)
    show ?thesis
      using pos parseInt10_str_layout1(1)[OF s(1) sn(3,4)] s(2)
      by (simp add: parseInt10_def sn(1))
  next
    case neg
    then have pos: "0 < - X" by simp
    have d: "is_double (of_int (- X))" using assms(1) by (simp add: is_double_minus)
    from shortest_integer_layout[OF d pos] assms(2) neg obtain s n where
      sn: "shortest (of_int (- X)) = (s, n)" "roundtrips (of_int (- X)) (s, n)"
          "int (length (digits10 s)) \<le> n" "n \<le> 21"
      by auto
    from sn(2) have s: "0 < s"
      "round64 (of_int s * 10 powi (n - int (length (digits10 s)))) = Fin (of_int (- X))"
      by (simp_all add: roundtrips_def)
    from s(2) neg have
      "js_neg (round64 (of_int s * 10 powi (n - int (length (digits10 s))))) = Fin (of_int X)"
      by simp
    then show ?thesis
      using neg parseInt10_str_layout1(2)[OF s(1) sn(3,4)] sn(1)
      by (simp add: parseInt10_def)
  qed
qed

section \<open>The normal form of rounding\<close>

lemma binexp_tiny: "0 \<le> q \<Longrightarrow> q < 2 powi (- int n) \<Longrightarrow> binexp n q = - int n"
proof (induction n arbitrary: q)
  case 0
  then show ?case by simp
next
  case (Suc n)
  have "(2::rat) powi (- int (Suc n)) \<le> 2 powi 0" by (intro powi2_mono) simp
  then have q1: "q < 1" using Suc.prems(2) by simp
  have "(2::rat) powi (- int (Suc n) + 1) = 2 powi (- int (Suc n)) * 2" by (rule powi2_suc)
  moreover have "- int (Suc n) + 1 = - int n" by simp
  ultimately have "(2::rat) powi (- int n) = 2 powi (- int (Suc n)) * 2" by simp
  then have "q * 2 < 2 powi (- int n)" using Suc.prems(2) by simp
  moreover have "0 \<le> q * 2" using Suc.prems(1) by simp
  ultimately have "binexp n (q * 2) = - int n" by (rule Suc.IH[rotated])
  then show ?case using q1 by simp
qed

lemma powi2_le_D: "(2::rat) powi a \<le> 2 powi b \<Longrightarrow> a \<le> b"
proof (rule ccontr)
  assume a: "(2::rat) powi a \<le> 2 powi b" and "\<not> a \<le> b"
  then have "b < a" by simp
  then have "(2::rat) powi b < 2 powi a" by (intro power_int_strict_increasing) simp_all
  with a show False by simp
qed

lemma round_half_even_zero: "round_half_even 0 = 0"
  by (simp add: round_half_even_def)

lemma round_half_even_le: "q \<le> of_int D \<Longrightarrow> round_half_even q \<le> D"
proof -
  assume a: "q \<le> of_int D"
  then have f: "\<lfloor>q\<rfloor> \<le> D" by (simp add: floor_le_iff)
  show ?thesis
  proof (cases "\<lfloor>q\<rfloor> = D")
    case True
    then have "of_int D \<le> q" by (metis of_int_floor_le)
    with a have "q = of_int D" by simp
    then show ?thesis by (simp add: round_half_even_def)
  next
    case False
    with f have "\<lfloor>q\<rfloor> + 1 \<le> D" by simp
    then show ?thesis using round_half_even_bounds[of q] by linarith
  qed
qed

lemma round_half_even_ge: "of_int D \<le> q \<Longrightarrow> D \<le> round_half_even q"
proof -
  assume "of_int D \<le> q"
  then have "D \<le> \<lfloor>q\<rfloor>" by (simp add: le_floor_iff)
  then show ?thesis using round_half_even_bounds[of q] by linarith
qed

lemma round_half_even_le_half:
  assumes "q \<le> of_int D + 1 / 2" and "even D"
  shows "round_half_even q \<le> D"
proof -
  have f: "\<lfloor>q\<rfloor> \<le> D"
  proof -
    have "q < of_int D + 1" using assms(1) by simp
    then have "q < of_int (D + 1)" by simp
    then have "\<lfloor>q\<rfloor> < D + 1" by (simp only: floor_less_iff)
    then show ?thesis by simp
  qed
  show ?thesis
  proof (cases "\<lfloor>q\<rfloor> = D")
    case True
    then have "q - of_int \<lfloor>q\<rfloor> \<le> 1 / 2" using assms(1) by simp
    then show ?thesis using True assms(2) by (simp add: round_half_even_def Let_def)
  next
    case False
    with f have "\<lfloor>q\<rfloor> + 1 \<le> D" by simp
    then show ?thesis using round_half_even_bounds[of q] by linarith
  qed
qed

lemma round_half_even_gt_half:
  assumes "of_int D + 1 / 2 < q"
  shows "D + 1 \<le> round_half_even q"
proof -
  have "of_int D \<le> q" using assms by simp
  then have f: "D \<le> \<lfloor>q\<rfloor>" by (simp add: le_floor_iff)
  show ?thesis
  proof (cases "\<lfloor>q\<rfloor> = D")
    case True
    then have "1 / 2 < q - of_int \<lfloor>q\<rfloor>" using assms by simp
    then show ?thesis using True by (simp add: round_half_even_def Let_def)
  next
    case False
    with f have "D + 1 \<le> \<lfloor>q\<rfloor>" by simp
    then show ?thesis using round_half_even_bounds[of q] by linarith
  qed
qed

text \<open>
  A non-negative \<open>q\<close> below \<open>2\<^sup>1\<^sup>0\<^sup>2\<^sup>4\<close> is rounded to a multiple of the unit \<open>2\<^sup>e\<^sup>-\<^sup>5\<^sup>2\<close> of its
  binade, \<open>e\<close> being \<open>-1022\<close> in the subnormal range.
\<close>

lemma round64_normal_form:
  assumes "0 \<le> q" and "q < 2 powi 1024"
  obtains e where "- 1022 \<le> e" and "e \<le> 1023" and "q < 2 powi (e + 1)"
    and "e = - 1022 \<or> 2 powi e \<le> q"
    and "round64 q =
           (if (2::rat) powi 1024 \<le> of_int (round_half_even (q / 2 powi (e - 52))) * 2 powi (e - 52)
            then PInf
            else Fin (of_int (round_half_even (q / 2 powi (e - 52))) * 2 powi (e - 52)))"
proof -
  define b where "b = binexp 1100 q"
  define e where "e = max b (- 1022)"
  define r where "r = of_int (round_half_even (q / 2 powi (e - 52))) * (2::rat) powi (e - 52)"
  have aq: "\<bar>q\<bar> = q" using assms(1) by simp
  have sg: "sgn q * r = r"
  proof (cases "q = 0")
    case True
    then show ?thesis by (simp add: r_def round_half_even_zero)
  next
    case False
    with assms(1) show ?thesis by (simp add: sgn_if)
  qed
  have eq: "round64 q = (if 2 powi 1024 \<le> r then PInf else Fin r)"
    unfolding round64_def Let_def aq b_def[symmetric] e_def[symmetric] r_def[symmetric]
    using assms(1) sg by simp
  have e1: "- 1022 \<le> e" by (simp add: e_def)
  have P: "e \<le> 1023 \<and> q < 2 powi (e + 1) \<and> (e = - 1022 \<or> 2 powi e \<le> q)"
  proof (cases "q < 2 powi (- int 1100)")
    case True
    from binexp_tiny[OF assms(1) True] have "b = - 1100" by (simp add: b_def)
    then have e: "e = - 1022" by (simp add: e_def)
    have "(2::rat) powi (- int 1100) \<le> 2 powi (e + 1)" unfolding e by (intro powi2_mono) simp
    with True have "q < 2 powi (e + 1)" by linarith
    with e show ?thesis by simp
  next
    case False
    then have p1: "2 powi (- int 1100) \<le> q" by simp
    have "(2::rat) powi 1024 \<le> 2 powi (int 1100 + 1)" by (intro powi2_mono) simp
    with assms(2) have p2: "q < 2 powi (int 1100 + 1)" by linarith
    from binexp_bounds[OF p1 p2] have bb: "2 powi b \<le> q" "q < 2 powi (b + 1)"
      by (simp_all add: b_def)
    from bb(1) assms(2) have "(2::rat) powi b < 2 powi 1024" by linarith
    then have b1: "b < 1024" by (rule powi2_less_D)
    have "(2::rat) powi (b + 1) \<le> 2 powi (e + 1)" by (intro powi2_mono) (simp add: e_def)
    with bb(2) have "q < 2 powi (e + 1)" by linarith
    moreover have "e = - 1022 \<or> 2 powi e \<le> q"
    proof (cases "- 1022 \<le> b")
      case True
      then have "e = b" by (simp add: e_def)
      with bb(1) show ?thesis by simp
    next
      case False
      then show ?thesis by (simp add: e_def)
    qed
    moreover have "e \<le> 1023" using b1 by (simp add: e_def)
    ultimately show ?thesis by simp
  qed
  show thesis
    using that[of e] e1 P eq unfolding r_def by blast
qed

text \<open>From \<open>2\<^sup>1\<^sup>0\<^sup>2\<^sup>4\<close> on, rounding overflows.\<close>

lemma round64_huge:
  assumes "2 powi 1024 \<le> q"
  shows "round64 q = PInf"
proof -
  define b where "b = binexp 1100 q"
  define e where "e = max b (- 1022)"
  define u where "u = (2::rat) powi (e - 52)"
  define T where "T = q / u"
  define M where "M = round_half_even T"
  have qpos: "0 < q"
  proof -
    have "(0::rat) < 2 powi 1024" by simp
    with assms show ?thesis by linarith
  qed
  have aq: "\<bar>q\<bar> = q" using qpos by simp
  have upos: "0 < u" by (simp add: u_def)
  have Tu: "T * u = q" using upos by (simp add: T_def)
  have eq: "round64 q = (if 2 powi 1024 \<le> of_int M * u then PInf else Fin (of_int M * u))"
    unfolding round64_def Let_def aq b_def[symmetric] e_def[symmetric] u_def[symmetric]
      T_def[symmetric] M_def[symmetric]
    using qpos by (simp add: sgn_if)
  have "2 powi 1024 \<le> of_int M * u"
  proof (cases "q < 2 powi (int 1100 + 1)")
    case True
    have "(2::rat) powi (- int 1100) \<le> 2 powi 1024" by (intro powi2_mono) simp
    with assms have p1: "2 powi (- int 1100) \<le> q" by linarith
    from binexp_bounds[OF p1 True] have bb: "2 powi b \<le> q" "q < 2 powi (b + 1)"
      by (simp_all add: b_def)
    from assms bb(2) have "(2::rat) powi 1024 < 2 powi (b + 1)" by linarith
    then have "1024 < b + 1" by (rule powi2_less_D)
    then have b1: "1024 \<le> b" by simp
    then have eb: "e = b" by (simp add: e_def)
    define c52 where "c52 = (2::rat) powi 52"
    have c52i: "c52 = of_int (2 ^ 52)" by (simp add: c52_def)
    have ue: "c52 * u = 2 powi e"
      unfolding c52_def u_def using powi2_split[of e 52] by simp
    from bb(1) have "c52 * u \<le> T * u" by (simp add: Tu ue eb)
    then have "c52 \<le> T" using upos by simp
    then have "of_int (2 ^ 52) \<le> T" by (simp only: c52i)
    then have "2 ^ 52 \<le> M" unfolding M_def by (rule round_half_even_ge)
    then have "c52 \<le> of_int M" unfolding c52i by (simp only: of_int_le_iff)
    then have "c52 * u \<le> of_int M * u" using upos by simp
    moreover have "(2::rat) powi 1024 \<le> 2 powi e" unfolding eb using b1 by (intro powi2_mono)
    ultimately show ?thesis unfolding ue by linarith
  next
    case False
    then have big: "2 powi 1101 \<le> q" by simp
    have "e \<le> 1100" using binexp_range[of 1100 q] by (simp add: e_def b_def)
    then have ule: "u \<le> 2 powi 1048" unfolding u_def by (intro powi2_mono) simp
    have "T - 1 < of_int \<lfloor>T\<rfloor>" by linarith
    also have "\<dots> \<le> of_int M" using round_half_even_bounds[of T] by (simp add: M_def)
    finally have "(T - 1) * u < of_int M * u" using upos by simp
    then have "q - u < of_int M * u" using Tu by (simp add: algebra_simps)
    with big ule have "2 powi 1024 < of_int M * u" by (intro huge_product)
    then show ?thesis by simp
  qed
  then show ?thesis unfolding eq by simp
qed

text \<open>Rounding does not cross a power of two.\<close>

lemma round64_le_pow2:
  assumes "0 \<le> q" and "q \<le> 2 powi k" and "- 1074 \<le> k" and "k \<le> 1023"
  shows "\<exists>r. round64 q = Fin r \<and> 0 \<le> r \<and> r \<le> 2 powi k"
proof -
  have "(2::rat) powi k < 2 powi 1024"
    using assms(4) by (intro power_int_strict_increasing) simp_all
  with assms(2) have q24: "q < 2 powi 1024" by linarith
  from round64_normal_form[OF assms(1) q24] obtain e where
    e: "- 1022 \<le> e" "e \<le> 1023" "q < 2 powi (e + 1)" "e = - 1022 \<or> 2 powi e \<le> q"
    and eq: "round64 q =
           (if (2::rat) powi 1024 \<le> of_int (round_half_even (q / 2 powi (e - 52))) * 2 powi (e - 52)
            then PInf
            else Fin (of_int (round_half_even (q / 2 powi (e - 52))) * 2 powi (e - 52)))"
    by blast
  define u where "u = (2::rat) powi (e - 52)"
  define M where "M = round_half_even (q / u)"
  have upos: "0 < u" by (simp add: u_def)
  have ek: "e - 52 \<le> k"
  proof -
    from e(4) show ?thesis
    proof
      assume "e = - 1022"
      with assms(3) show ?thesis by simp
    next
      assume "2 powi e \<le> q"
      with assms(2) have "(2::rat) powi e \<le> 2 powi k" by linarith
      then have "e \<le> k" by (rule powi2_le_D)
      then show ?thesis by simp
    qed
  qed
  define j where "j = nat (k - (e - 52))"
  have jeq: "int j = k - (e - 52)" using ek by (simp add: j_def)
  have kd: "(2::rat) powi k = of_int (2 ^ j) * u"
  proof -
    have "(2::rat) powi k = 2 powi (int j) * 2 powi (e - 52)"
      by (simp add: jeq flip: power_int_add)
    then show ?thesis by (simp add: u_def)
  qed
  have "q / u \<le> of_int (2 ^ j)"
    using assms(2) upos unfolding kd by (simp add: field_simps)
  then have "M \<le> 2 ^ j" unfolding M_def by (rule round_half_even_le)
  then have "(of_int M :: rat) \<le> of_int (2 ^ j)" by (simp only: of_int_le_iff)
  then have le: "of_int M * u \<le> 2 powi k" unfolding kd using upos by simp
  have "0 \<le> q / u" using assms(1) upos by simp
  then have "0 \<le> M" unfolding M_def by (rule round_half_even_nonneg)
  then have nn: "0 \<le> of_int M * u" using upos by simp
  have "\<not> 2 powi 1024 \<le> of_int M * u"
    using le \<open>(2::rat) powi k < 2 powi 1024\<close> by linarith
  then have "round64 q = Fin (of_int M * u)"
    using eq unfolding u_def[symmetric] M_def[symmetric] by simp
  with le nn show ?thesis by blast
qed

lemma round64_ge_pow2:
  assumes "2 powi k \<le> q" and "- 1074 \<le> k"
  shows "round64 q = PInf \<or> (\<exists>r. round64 q = Fin r \<and> 2 powi k \<le> r)"
proof (cases "q < 2 powi 1024")
  case False
  then have "round64 q = PInf" by (intro round64_huge) simp
  then show ?thesis by simp
next
  case True
  have "(0::rat) < 2 powi k" by simp
  with assms(1) have q0: "0 \<le> q" by linarith
  from round64_normal_form[OF q0 True] obtain e where
    e: "- 1022 \<le> e" "e \<le> 1023" "q < 2 powi (e + 1)" "e = - 1022 \<or> 2 powi e \<le> q"
    and eq: "round64 q =
           (if (2::rat) powi 1024 \<le> of_int (round_half_even (q / 2 powi (e - 52))) * 2 powi (e - 52)
            then PInf
            else Fin (of_int (round_half_even (q / 2 powi (e - 52))) * 2 powi (e - 52)))"
    by blast
  define u where "u = (2::rat) powi (e - 52)"
  define M where "M = round_half_even (q / u)"
  have upos: "0 < u" by (simp add: u_def)
  have ge: "2 powi k \<le> of_int M * u"
  proof (cases "e - 52 \<le> k")
    case True
    define j where "j = nat (k - (e - 52))"
    have jeq: "int j = k - (e - 52)" using True by (simp add: j_def)
    have kd: "(2::rat) powi k = of_int (2 ^ j) * u"
    proof -
      have "(2::rat) powi k = 2 powi (int j) * 2 powi (e - 52)"
        by (simp add: jeq flip: power_int_add)
      then show ?thesis by (simp add: u_def)
    qed
    have "of_int (2 ^ j) \<le> q / u"
      using assms(1) upos unfolding kd by (simp add: field_simps)
    then have "2 ^ j \<le> M" unfolding M_def by (rule round_half_even_ge)
    then have "(of_int (2 ^ j) :: rat) \<le> of_int M" by (simp only: of_int_le_iff)
    then show ?thesis unfolding kd using upos by simp
  next
    case False
    then have ke: "k < e - 52" by simp
    with assms(2) have "e \<noteq> - 1022" by simp
    with e(4) have eq': "2 powi e \<le> q" by simp
    define c52 where "c52 = (2::rat) powi 52"
    have c52i: "c52 = of_int (2 ^ 52)" by (simp add: c52_def)
    have ue: "c52 * u = 2 powi e"
      unfolding c52_def u_def using powi2_split[of e 52] by simp
    have "c52 * u \<le> (q / u) * u" using eq' upos by (simp add: ue)
    then have "c52 \<le> q / u" using upos by (simp only: mult_le_cancel_right_pos)
    then have "of_int (2 ^ 52) \<le> q / u" by (simp only: c52i)
    then have "2 ^ 52 \<le> M" unfolding M_def by (rule round_half_even_ge)
    then have "c52 \<le> of_int M" unfolding c52i by (simp only: of_int_le_iff)
    then have "c52 * u \<le> of_int M * u" using upos by simp
    moreover have "(2::rat) powi k \<le> 2 powi e" using ke by (intro powi2_mono) simp
    ultimately show ?thesis unfolding ue by linarith
  qed
  show ?thesis
    using eq ge unfolding u_def[symmetric] M_def[symmetric] by (cases "2 powi 1024 \<le> of_int M * u") auto
qed

section \<open>Rounding at the bounds of the currency range\<close>

lemma binade_29:
  assumes "2 powi 29 \<le> m" and "m < 2 powi 30"
  shows "round64 m =
           (if (2::rat) powi 1024 \<le> of_int (round_half_even (m * 8388608)) / 8388608 then PInf
            else Fin (of_int (round_half_even (m * 8388608)) / 8388608))"
proof -
  have "(0::rat) < 2 powi 29" by simp
  with assms(1) have m0: "0 \<le> m" by linarith
  have "(2::rat) powi 30 \<le> 2 powi 1024" by (intro powi2_mono) simp
  with assms(2) have m24: "m < 2 powi 1024" by linarith
  from round64_normal_form[OF m0 m24] obtain e where
    e: "- 1022 \<le> e" "e \<le> 1023" "m < 2 powi (e + 1)" "e = - 1022 \<or> 2 powi e \<le> m"
    and eq: "round64 m =
           (if (2::rat) powi 1024 \<le> of_int (round_half_even (m / 2 powi (e - 52))) * 2 powi (e - 52)
            then PInf
            else Fin (of_int (round_half_even (m / 2 powi (e - 52))) * 2 powi (e - 52)))"
    by blast
  from assms(1) e(3) have "(2::rat) powi 29 < 2 powi (e + 1)" by linarith
  then have "29 < e + 1" by (rule powi2_less_D)
  then have lo: "29 \<le> e" by simp
  with e(4) have "2 powi e \<le> m" by auto
  with assms(2) have "(2::rat) powi e < 2 powi 30" by linarith
  then have "e < 30" by (rule powi2_less_D)
  with lo have e29: "e = 29" by simp
  have u: "(2::rat) powi (29 - 52) = 1 / 8388608" by (simp add: power_int_minus)
  show ?thesis using eq unfolding e29 u by simp
qed

lemma subnormal_form:
  assumes "0 \<le> m" and "m < 2 powi (- 1022)"
  shows "round64 m =
           (if (2::rat) powi 1024 \<le> of_int (round_half_even (m / 2 powi (- 1074))) * 2 powi (- 1074)
            then PInf
            else Fin (of_int (round_half_even (m / 2 powi (- 1074))) * 2 powi (- 1074)))"
proof -
  have "(2::rat) powi (- 1022) \<le> 2 powi 1024" by (intro powi2_mono) simp
  with assms(2) have m24: "m < 2 powi 1024" by linarith
  from round64_normal_form[OF assms(1) m24] obtain e where
    e: "- 1022 \<le> e" "e \<le> 1023" "m < 2 powi (e + 1)" "e = - 1022 \<or> 2 powi e \<le> m"
    and eq: "round64 m =
           (if (2::rat) powi 1024 \<le> of_int (round_half_even (m / 2 powi (e - 52))) * 2 powi (e - 52)
            then PInf
            else Fin (of_int (round_half_even (m / 2 powi (e - 52))) * 2 powi (e - 52)))"
    by blast
  have "e = - 1022"
  proof (rule ccontr)
    assume ne: "e \<noteq> - 1022"
    with e(4) have "2 powi e \<le> m" by simp
    with assms(2) have "(2::rat) powi e < 2 powi (- 1022)" by linarith
    then have "e < - 1022" by (rule powi2_less_D)
    with e(1) show False by simp
  qed
  then have "e - 52 = - 1074" by simp
  then show ?thesis using eq by (simp only:)
qed

text \<open>
  A magnitude up to \<open>10\<^sup>9 + 2\<^sup>-\<^sup>2\<^sup>4\<close> is read as a Number that is at most \<open>10\<^sup>9\<close>; a larger one
  is read as a Number above \<open>10\<^sup>9\<close>.
\<close>

lemma round64_within_ceiling:
  assumes "0 \<le> m" and "readsWithinCeiling m"
  shows "\<exists>r. round64 m = Fin r \<and> 0 \<le> r \<and> r \<le> 1000000000"
proof (cases "m \<le> 2 powi 29")
  case True
  from round64_le_pow2[OF assms(1) True] obtain r where
    "round64 m = Fin r" "0 \<le> r" "r \<le> 2 powi 29" by auto
  moreover have "(2::rat) powi 29 \<le> 1000000000" by simp
  ultimately show ?thesis by auto
next
  case False
  then have lo: "2 powi 29 \<le> m" by simp
  have up: "m \<le> 1000000000 + 1 / 16777216" using assms(2) by (simp add: readsWithinCeiling_def)
  have "(1000000000::rat) + 1 / 16777216 < 2 powi 30" by simp
  with up have hi: "m < 2 powi 30" by linarith
  define M where "M = round_half_even (m * 8388608)"
  have "m * 8388608 \<le> of_int 8388608000000000 + 1 / 2" using up by simp
  then have "M \<le> 8388608000000000" unfolding M_def by (rule round_half_even_le_half) simp
  then have "(of_int M :: rat) \<le> of_int 8388608000000000" by (simp only: of_int_le_iff)
  then have le: "(of_int M :: rat) / 8388608 \<le> 1000000000" by simp
  have "0 \<le> m * 8388608" using assms(1) by simp
  then have "0 \<le> M" unfolding M_def by (rule round_half_even_nonneg)
  then have nn: "0 \<le> (of_int M :: rat) / 8388608" by simp
  have "(1000000000::rat) < 2 powi 1024"
  proof -
    have "(1000000000::rat) < 2 powi 30" by simp
    moreover have "(2::rat) powi 30 \<le> 2 powi 1024" by (intro powi2_mono) simp
    ultimately show ?thesis by linarith
  qed
  with le have "\<not> (2::rat) powi 1024 \<le> of_int M / 8388608" by linarith
  then have "round64 m = Fin (of_int M / 8388608)"
    using binade_29[OF lo hi] unfolding M_def[symmetric] by simp
  with le nn show ?thesis by blast
qed

lemma round64_above_ceiling:
  assumes "\<not> readsWithinCeiling m"
  shows "round64 m = PInf \<or> (\<exists>r. round64 m = Fin r \<and> 1000000000 < r)"
proof (cases "2 powi 30 \<le> m")
  case True
  from round64_ge_pow2[OF True] have
    "round64 m = PInf \<or> (\<exists>r. round64 m = Fin r \<and> 2 powi 30 \<le> r)" by simp
  moreover have "(1000000000::rat) < 2 powi 30" by simp
  ultimately show ?thesis by auto
next
  case False
  then have hi: "m < 2 powi 30" by simp
  have up: "1000000000 + 1 / 16777216 < m" using assms by (simp add: readsWithinCeiling_def)
  have "(2::rat) powi 29 \<le> 1000000000 + 1 / 16777216" by simp
  with up have lo: "2 powi 29 \<le> m" by linarith
  define M where "M = round_half_even (m * 8388608)"
  have "of_int 8388608000000000 + 1 / 2 < m * 8388608" using up by simp
  then have "8388608000000000 + 1 \<le> M" unfolding M_def by (rule round_half_even_gt_half)
  then have "(of_int (8388608000000000 + 1) :: rat) \<le> of_int M" by (simp only: of_int_le_iff)
  then have gt: "1000000000 < (of_int M :: rat) / 8388608" by simp
  show ?thesis
  proof (cases "(2::rat) powi 1024 \<le> of_int M / 8388608")
    case True
    then have "round64 m = PInf"
      using binade_29[OF lo hi] unfolding M_def[symmetric] by simp
    then show ?thesis by simp
  next
    case False
    then have "round64 m = Fin (of_int M / 8388608)"
      using binade_29[OF lo hi] unfolding M_def[symmetric] by simp
    with gt show ?thesis by blast
  qed
qed

text \<open>
  A magnitude up to \<open>2\<^sup>-\<^sup>1\<^sup>0\<^sup>7\<^sup>5\<close> is read as zero; a larger one is read as a positive Number.
\<close>

lemma half_unit: "(1::rat) / 2 ^ 1075 = 2 powi (- 1074) / 2"
proof -
  have "(2::rat) powi (- 1074 - 1) = 2 powi (- 1074) / 2" by (rule powi2_pred)
  moreover have "(1::rat) / 2 ^ 1075 = 2 powi (- 1075)" by (simp add: power_int_minus)
  ultimately show ?thesis by simp
qed

lemma round64_reads_as_zero:
  assumes "0 \<le> m" and "readsAsZero m"
  shows "round64 m = Fin 0"
proof -
  define U where "U = (2::rat) powi (- 1074)"
  have Upos: "0 < U" by (simp add: U_def)
  have mU: "m \<le> U / 2" using assms(2) unfolding readsAsZero_def half_unit U_def .
  have "U \<le> 2 powi (- 1022)" unfolding U_def by (intro powi2_mono) simp
  with mU Upos have sub: "m < 2 powi (- 1022)" by linarith
  define M where "M = round_half_even (m / U)"
  have "m / U \<le> of_int 0 + 1 / 2" using mU Upos by (simp add: field_simps)
  then have "M \<le> 0" unfolding M_def by (rule round_half_even_le_half) simp
  moreover have "0 \<le> m / U" using assms(1) Upos by simp
  then have "0 \<le> M" unfolding M_def by (rule round_half_even_nonneg)
  ultimately have M0: "M = 0" by simp
  have "\<not> (2::rat) powi 1024 \<le> 0" by (simp add: not_le)
  then show ?thesis
    using subnormal_form[OF assms(1) sub] unfolding U_def[symmetric] M_def[symmetric] M0
    by simp
qed

lemma round64_reads_positive:
  assumes "\<not> readsAsZero m"
  shows "round64 m = PInf \<or> (\<exists>r. round64 m = Fin r \<and> 0 < r)"
proof (cases "2 powi (- 1022) \<le> m")
  case True
  from round64_ge_pow2[OF True] have
    "round64 m = PInf \<or> (\<exists>r. round64 m = Fin r \<and> 2 powi (- 1022) \<le> r)" by simp
  moreover have "(0::rat) < 2 powi (- 1022)" by simp
  ultimately show ?thesis by (metis less_le_trans)
next
  case False
  then have sub: "m < 2 powi (- 1022)" by simp
  define U where "U = (2::rat) powi (- 1074)"
  have Upos: "0 < U" by (simp add: U_def)
  have mU: "U / 2 < m" using assms unfolding readsAsZero_def half_unit U_def by simp
  then have m0: "0 \<le> m" using Upos by linarith
  define M where "M = round_half_even (m / U)"
  have "of_int 0 + 1 / 2 < m / U" using mU Upos by (simp add: field_simps)
  then have "0 + 1 \<le> M" unfolding M_def by (rule round_half_even_gt_half)
  then have gt: "0 < of_int M * U" using Upos by simp
  show ?thesis
  proof (cases "(2::rat) powi 1024 \<le> of_int M * U")
    case True
    then have "round64 m = PInf"
      using subnormal_form[OF m0 sub] unfolding U_def[symmetric] M_def[symmetric] by simp
    then show ?thesis by simp
  next
    case False
    then have "round64 m = Fin (of_int M * U)"
      using subnormal_form[OF m0 sub] unfolding U_def[symmetric] M_def[symmetric] by simp
    with gt show ?thesis by blast
  qed
qed

section \<open>Parsing a numeric string\<close>

lemma decimalDigit_props:
  assumes "decimalDigit c"
  shows "isDigit c \<and> digitOf c = digitVal c"
  using assms unfolding decimalDigit_def list.set
proof (elim insertE emptyE)
  assume "c = CHR ''0''"
  then show ?thesis by (simp add: isDigit_def digitOf_def digitVal_def)
next
  assume "c = CHR ''1''"
  then show ?thesis by (simp add: isDigit_def digitOf_def digitVal_def)
next
  assume "c = CHR ''2''"
  then show ?thesis by (simp add: isDigit_def digitOf_def digitVal_def)
next
  assume "c = CHR ''3''"
  then show ?thesis by (simp add: isDigit_def digitOf_def digitVal_def)
next
  assume "c = CHR ''4''"
  then show ?thesis by (simp add: isDigit_def digitOf_def digitVal_def)
next
  assume "c = CHR ''5''"
  then show ?thesis by (simp add: isDigit_def digitOf_def digitVal_def)
next
  assume "c = CHR ''6''"
  then show ?thesis by (simp add: isDigit_def digitOf_def digitVal_def)
next
  assume "c = CHR ''7''"
  then show ?thesis by (simp add: isDigit_def digitOf_def digitVal_def)
next
  assume "c = CHR ''8''"
  then show ?thesis by (simp add: isDigit_def digitOf_def digitVal_def)
next
  assume "c = CHR ''9''"
  then show ?thesis by (simp add: isDigit_def digitOf_def digitVal_def)
qed

lemma isDigit_decimalDigit:
  assumes "isDigit c"
  shows "decimalDigit c"
proof -
  define n :: int where "n = of_char c"
  have "48 \<le> n" "n \<le> 57" using assms by (simp_all add: isDigit_def n_def)
  then have n: "n \<in> {48, 49, 50, 51, 52, 53, 54, 55, 56, 57}" by simp presburger
  have k: "c = d" if "n = of_char d" for d
    using that unfolding n_def by (simp only: of_char_eq_iff)
  from n show ?thesis
  proof (elim insertE emptyE)
    assume "n = 48"
    then have "c = CHR ''0''" by (intro k) simp
    then show ?thesis by (simp add: decimalDigit_def)
  next
    assume "n = 49"
    then have "c = CHR ''1''" by (intro k) simp
    then show ?thesis by (simp add: decimalDigit_def)
  next
    assume "n = 50"
    then have "c = CHR ''2''" by (intro k) simp
    then show ?thesis by (simp add: decimalDigit_def)
  next
    assume "n = 51"
    then have "c = CHR ''3''" by (intro k) simp
    then show ?thesis by (simp add: decimalDigit_def)
  next
    assume "n = 52"
    then have "c = CHR ''4''" by (intro k) simp
    then show ?thesis by (simp add: decimalDigit_def)
  next
    assume "n = 53"
    then have "c = CHR ''5''" by (intro k) simp
    then show ?thesis by (simp add: decimalDigit_def)
  next
    assume "n = 54"
    then have "c = CHR ''6''" by (intro k) simp
    then show ?thesis by (simp add: decimalDigit_def)
  next
    assume "n = 55"
    then have "c = CHR ''7''" by (intro k) simp
    then show ?thesis by (simp add: decimalDigit_def)
  next
    assume "n = 56"
    then have "c = CHR ''8''" by (intro k) simp
    then show ?thesis by (simp add: decimalDigit_def)
  next
    assume "n = 57"
    then have "c = CHR ''9''" by (intro k) simp
    then show ?thesis by (simp add: decimalDigit_def)
  qed
qed

lemma decimalDigit_iff: "decimalDigit c = isDigit c"
  using decimalDigit_props isDigit_decimalDigit by blast

lemma digits_are_digits: "list_all decimalDigit ds \<Longrightarrow> \<forall>c\<in>set ds. isDigit c"
  by (simp add: list_all_iff decimalDigit_iff)

lemma digitsVal_Cons: "digitsVal (c # cs) = digitVal c * 10 ^ length cs + digitsVal cs"
proof -
  have "digitsVal ([c] @ cs) = digitsVal [c] * 10 ^ length cs + digitsVal cs"
    by (rule digitsVal_append)
  then show ?thesis by (simp add: digitsVal_def)
qed

lemma decimalValue_digitsVal: "list_all decimalDigit ds \<Longrightarrow> decimalValue ds = digitsVal ds"
proof (induction ds)
  case Nil
  then show ?case by (simp add: digitsVal_def)
next
  case (Cons c cs)
  then show ?case by (simp add: digitsVal_Cons decimalDigit_props)
qed

lemma decimalValue_nonneg: "list_all decimalDigit ds \<Longrightarrow> 0 \<le> decimalValue ds"
  using digitsVal_nonneg[OF digits_are_digits] by (simp add: decimalValue_digitsVal)

text \<open>White space and a sign before a digit or a point are removed as such.\<close>

lemma trimStart_spaces:
  assumes "list_all isWhiteSpace ws" and "t \<noteq> []" and "\<not> isWhiteSpace (hd t)"
  shows "trimStart (ws @ t) = t"
proof -
  have "dropWhile isWhiteSpace (ws @ t) = dropWhile isWhiteSpace t"
    using assms(1) by (induction ws) simp_all
  also have "\<dots> = t" using assms(2,3) by (cases t) simp_all
  finally show ?thesis by (simp add: trimStart_def)
qed

lemma splitSign_sign:
  assumes "isSign sg" and "S \<noteq> []" and "hd S \<noteq> CHR ''-''" and "hd S \<noteq> CHR ''+''"
  shows "splitSign (sg @ S) = (if sg = ''-'' then - 1 else 1, S)"
  using assms by (cases S) (auto simp: isSign_def)

lemma sign_head:
  assumes "isSign sg" and "S \<noteq> []" and "isDigit (hd S) \<or> hd S = CHR ''.''"
  shows "sg @ S \<noteq> []" and "\<not> isWhiteSpace (hd (sg @ S))"
  using assms by (cases S; auto simp: isSign_def isWhiteSpace_def isDigit_def)+

text \<open>The exponent part.\<close>

lemma exponentPart_literal:
  assumes "c = CHR ''e'' \<or> c = CHR ''E''" and "isSign sg" and "ds \<noteq> []"
    and "\<forall>x\<in>set ds. isDigit x" and "rest = [] \<or> \<not> isDigit (hd rest)"
  shows "exponentPart (c # sg @ ds @ rest) = (if sg = ''-'' then - digitsVal ds else digitsVal ds)"
proof -
  obtain d ds' where d: "ds = d # ds'" using assms(3) by (cases ds) auto
  with assms(4) have dd: "isDigit d" by simp
  have hd: "ds @ rest \<noteq> []" "hd (ds @ rest) \<noteq> CHR ''-''" "hd (ds @ rest) \<noteq> CHR ''+''"
    using dd digit_not_space[of d] by (simp_all add: d)
  have sp: "splitSign (sg @ ds @ rest) = (if sg = ''-'' then - 1 else 1, ds @ rest)"
    using splitSign_sign[OF assms(2) hd] .
  have tw: "takeWhile isDigit (ds @ rest) = ds"
    using takeWhile_digits[OF assms(4,5)] by simp
  show ?thesis using assms(1,3) by (simp add: sp tw)
qed

lemma exponentPart_absent:
  assumes "\<not> startsExponent rest"
  shows "exponentPart rest = 0"
proof (cases rest)
  case Nil
  then show ?thesis by simp
next
  case (Cons c r)
  show ?thesis
  proof (cases "c = CHR ''e'' \<or> c = CHR ''E''")
    case False
    then show ?thesis by (simp add: Cons)
  next
    case True
    have "takeWhile isDigit (snd (splitSign r)) = []"
    proof (cases r)
      case Nil
      then show ?thesis by simp
    next
      case r: (Cons d r')
      from assms True have nd: "\<not> isDigit d"
        by (simp add: Cons r decimalDigit_iff)
      show ?thesis
      proof (cases "d = CHR ''+'' \<or> d = CHR ''-''")
        case False
        with nd show ?thesis by (simp add: r)
      next
        case sgn: True
        with assms True have "r' = [] \<or> \<not> isDigit (hd r')"
          by (auto simp: Cons r decimalDigit_iff)
        then have "takeWhile isDigit r' = []" by (cases r') auto
        with sgn show ?thesis by (auto simp: r)
      qed
    qed
    then show ?thesis using True by (cases "splitSign r") (auto simp: Cons)
  qed
qed

text \<open>The unsigned part of a literal, with or without a point.\<close>

lemma strUnsigned_point:
  assumes "\<forall>c\<in>set ip. isDigit c" and "\<forall>c\<in>set fp. isDigit c" and "ip \<noteq> [] \<or> fp \<noteq> []"
    and "r = [] \<or> \<not> isDigit (hd r)"
  shows "strUnsigned (ip @ ''.'' @ fp @ r) =
     Some (of_int (digitsVal (ip @ fp)) * 10 powi (exponentPart r - int (length fp)))"
proof -
  have tw: "takeWhile isDigit (ip @ ''.'' @ fp @ r) = ip"
    "dropWhile isDigit (ip @ ''.'' @ fp @ r) = ''.'' @ fp @ r"
    using takeWhile_digits[OF assms(1), of "''.'' @ fp @ r"] by (simp_all add: exponent_letter)
  have tw2: "takeWhile isDigit (fp @ r) = fp" "dropWhile isDigit (fp @ r) = r"
    using takeWhile_digits[OF assms(2,4)] by simp_all
  show ?thesis unfolding strUnsigned_def tw Let_def
    using assms(3) by (simp add: tw2)
qed

lemma strUnsigned_whole:
  assumes "\<forall>c\<in>set ip. isDigit c" and "ip \<noteq> []"
    and "r = [] \<or> (\<not> isDigit (hd r) \<and> hd r \<noteq> CHR ''.'')"
  shows "strUnsigned (ip @ r) = Some (of_int (digitsVal ip) * 10 powi (exponentPart r))"
proof -
  from assms(3) have r: "r = [] \<or> \<not> isDigit (hd r)" by blast
  have tw: "takeWhile isDigit (ip @ r) = ip" "dropWhile isDigit (ip @ r) = r"
    using takeWhile_digits[OF assms(1) r] by simp_all
  show ?thesis unfolding strUnsigned_def tw Let_def
    using assms(2,3) by auto
qed

lemma shift_fraction:
  "(of_int (a * 10 ^ n + b) :: rat) * 10 powi (E - int n) = (of_int a + of_int b / 10 ^ n) * 10 powi E"
  by (simp add: power_int_diff field_simps)

lemma strUnsigned_literal:
  assumes "wellFormed d" and "stops d rest"
  shows "strUnsigned (lit_whole d @ (case lit_frac d of None \<Rightarrow> [] | Some fp \<Rightarrow> ''.'' @ fp)
            @ (case lit_exp d of None \<Rightarrow> [] | Some (c, sg, ds) \<Rightarrow> c # sg @ ds) @ rest)
         = Some (magnitude d)"
proof -
  define W where "W = lit_whole d"
  define r where "r = (case lit_exp d of None \<Rightarrow> [] | Some (c, sg, ds) \<Rightarrow> c # sg @ ds) @ rest"
  have Wd: "\<forall>c\<in>set W. isDigit c"
    using assms(1) by (intro digits_are_digits) (simp add: wellFormed_def W_def)
  have WV: "digitsVal W = decimalValue W"
    using assms(1) by (simp add: wellFormed_def W_def decimalValue_digitsVal)
  have rest_nd: "rest = [] \<or> \<not> isDigit (hd rest)"
    using assms(2) by (cases rest) (simp_all add: stops_def decimalDigit_iff)
  have R: "(r = [] \<or> \<not> isDigit (hd r)) \<and> exponentPart r = exponentOf d \<and>
           (lit_frac d = None \<longrightarrow> r = [] \<or> hd r \<noteq> CHR ''.'')"
  proof (cases "lit_exp d")
    case None
    then have r: "r = rest" by (simp add: r_def)
    have "\<not> startsExponent rest"
      using assms(2) None by (cases rest) (simp_all add: stops_def)
    then have "exponentPart rest = 0" by (rule exponentPart_absent)
    moreover have "lit_frac d = None \<longrightarrow> rest = [] \<or> hd rest \<noteq> CHR ''.''"
      using assms(2) None by (cases rest) (simp_all add: stops_def)
    ultimately show ?thesis using rest_nd by (simp add: r exponentOf_def None)
  next
    case (Some x)
    obtain c sg ds where x: "x = (c, sg, ds)" by (cases x)
    from assms(1) have e: "c = CHR ''e'' \<or> c = CHR ''E''" "isSign sg" "ds \<noteq> []"
      "list_all decimalDigit ds"
      by (simp_all add: wellFormed_def Some x)
    have r: "r = c # sg @ ds @ rest" by (simp add: r_def Some x)
    have "exponentPart (c # sg @ ds @ rest) = (if sg = ''-'' then - digitsVal ds else digitsVal ds)"
      using e(1,2,3) digits_are_digits[OF e(4)] rest_nd by (rule exponentPart_literal)
    then have "exponentPart r = exponentOf d"
      by (simp add: r exponentOf_def Some x decimalValue_digitsVal[OF e(4)])
    moreover have "\<not> isDigit (hd r)" "hd r \<noteq> CHR ''.''"
      using e(1) by (auto simp: r isDigit_def)
    ultimately show ?thesis by simp
  qed
  show ?thesis
  proof (cases "lit_frac d")
    case None
    from assms(1) None have ne: "W \<noteq> []" by (simp add: wellFormed_def W_def)
    from R None have r3: "r = [] \<or> (\<not> isDigit (hd r) \<and> hd r \<noteq> CHR ''.'')" by auto
    have "strUnsigned (W @ r) = Some (of_int (digitsVal W) * 10 powi (exponentPart r))"
      using Wd ne r3 by (rule strUnsigned_whole)
    moreover have "magnitude d = of_int (decimalValue W) * 10 powi exponentOf d"
      by (simp add: magnitude_def None W_def)
    ultimately show ?thesis
      unfolding W_def[symmetric] r_def[symmetric] None using R by (simp add: WV)
  next
    case (Some fp)
    from assms(1) Some have fpd: "list_all decimalDigit fp" and ne: "W \<noteq> [] \<or> fp \<noteq> []"
      by (simp_all add: wellFormed_def W_def)
    from R have r1: "r = [] \<or> \<not> isDigit (hd r)" by simp
    have su: "strUnsigned (W @ ''.'' @ fp @ r) =
        Some (of_int (digitsVal (W @ fp)) * 10 powi (exponentPart r - int (length fp)))"
      using Wd digits_are_digits[OF fpd] ne r1 by (rule strUnsigned_point)
    have "(of_int (digitsVal (W @ fp)) :: rat) * 10 powi (exponentOf d - int (length fp))
        = (of_int (decimalValue W) + of_int (decimalValue fp) / 10 ^ length fp)
          * 10 powi exponentOf d"
      unfolding digitsVal_append WV decimalValue_digitsVal[OF fpd, symmetric]
      by (rule shift_fraction)
    also have "\<dots> = magnitude d" by (simp add: magnitude_def Some W_def)
    finally have "(of_int (digitsVal (W @ fp)) :: rat) * 10 powi (exponentPart r - int (length fp))
        = magnitude d" using R by simp
    with su show ?thesis
      unfolding W_def[symmetric] r_def[symmetric] Some by simp
  qed
qed

lemma magnitude_nonneg:
  assumes "wellFormed d"
  shows "0 \<le> magnitude d"
proof -
  have "0 \<le> decimalValue (lit_whole d)"
    using assms by (intro decimalValue_nonneg) (simp add: wellFormed_def)
  moreover have "0 \<le> (case lit_frac d of None \<Rightarrow> 0
      | Some fp \<Rightarrow> (of_int (decimalValue fp) :: rat) / 10 ^ length fp)"
  proof (cases "lit_frac d")
    case None
    then show ?thesis by simp
  next
    case (Some fp)
    with assms have "0 \<le> decimalValue fp"
      by (intro decimalValue_nonneg) (simp add: wellFormed_def)
    then show ?thesis by (simp add: Some)
  qed
  ultimately show ?thesis by (simp add: magnitude_def)
qed

text \<open>
  \<^verbatim>\<open>parseFloat\<close> reads a literal, after any white space and before any text that cannot
  continue it, as the Number nearest to the value the literal denotes.
\<close>

lemma parseFloat_literal:
  assumes "wellFormed d" and "stops d rest" and "list_all isWhiteSpace ws"
  shows "parseFloat (JStr (ws @ literalText d @ rest)) = literalNumber d"
proof -
  define body where "body = lit_whole d @ (case lit_frac d of None \<Rightarrow> [] | Some fp \<Rightarrow> ''.'' @ fp)
            @ (case lit_exp d of None \<Rightarrow> [] | Some (c, sg, ds) \<Rightarrow> c # sg @ ds) @ rest"
  have tx: "ws @ literalText d @ rest = ws @ lit_sign d @ body"
    by (simp add: literalText_def body_def)
  have su: "strUnsigned body = Some (magnitude d)"
    unfolding body_def using assms(1,2) by (rule strUnsigned_literal)
  have sg: "isSign (lit_sign d)" using assms(1) by (simp add: wellFormed_def)
  have hd: "body \<noteq> [] \<and> (isDigit (hd body) \<or> hd body = CHR ''.'')"
  proof (cases "lit_whole d")
    case (Cons c cs)
    with assms(1) have "isDigit c" by (simp add: wellFormed_def decimalDigit_iff)
    then show ?thesis by (simp add: body_def Cons)
  next
    case Nil
    with assms(1) obtain fp where "lit_frac d = Some fp"
      by (cases "lit_frac d") (simp_all add: wellFormed_def)
    then show ?thesis by (simp add: body_def Nil)
  qed
  then have b1: "body \<noteq> []" and b2: "isDigit (hd body) \<or> hd body = CHR ''.''" by simp_all
  have b3: "hd body \<noteq> CHR ''-''" "hd body \<noteq> CHR ''+''" "hd body \<noteq> CHR ''I''"
    using b2 by (auto simp: isDigit_def)
  have ninf: "take 8 body \<noteq> ''Infinity''"
    using b1 b3(3) by (cases body) auto
  have tr: "trimStart (ws @ lit_sign d @ body) = lit_sign d @ body"
    using assms(3) sign_head[OF sg b1 b2] by (rule trimStart_spaces)
  have sp: "splitSign (lit_sign d @ body) = (if lit_sign d = ''-'' then - 1 else 1, body)"
    using sg b1 b3(1,2) by (rule splitSign_sign)
  show ?thesis
    unfolding parseFloat_def ToString.simps tx parseFloat_str_def tr sp Let_def prod.case
    using ninf by (simp add: su literalNumber_def hasMinus_def)
qed

lemma literalText_nonempty: "wellFormed d \<Longrightarrow> ws @ literalText d @ rest \<noteq> []"
  by (cases "lit_frac d") (auto simp: wellFormed_def literalText_def)

lemma literalNumber_cases:
  assumes "wellFormed d"
  shows "(hasMinus d \<and> readsAsZero (magnitude d) \<longrightarrow> literalNumber d = NZero) \<and>
         (hasMinus d \<and> \<not> readsAsZero (magnitude d) \<longrightarrow>
            literalNumber d = NInf \<or> (\<exists>r. literalNumber d = Fin r \<and> r < 0)) \<and>
         (\<not> hasMinus d \<and> readsWithinCeiling (magnitude d) \<longrightarrow>
            (\<exists>r. literalNumber d = Fin r \<and> 0 \<le> r \<and> r \<le> 1000000000)) \<and>
         (\<not> hasMinus d \<and> \<not> readsWithinCeiling (magnitude d) \<longrightarrow>
            literalNumber d = PInf \<or> (\<exists>r. literalNumber d = Fin r \<and> 1000000000 < r))"
proof -
  note m0 = magnitude_nonneg[OF assms]
  have 1: "hasMinus d \<and> readsAsZero (magnitude d) \<longrightarrow> literalNumber d = NZero"
    using round64_reads_as_zero[OF m0] by (simp add: literalNumber_def)
  have 2: "hasMinus d \<and> \<not> readsAsZero (magnitude d) \<longrightarrow>
            literalNumber d = NInf \<or> (\<exists>r. literalNumber d = Fin r \<and> r < 0)"
  proof (rule impI)
    assume a: "hasMinus d \<and> \<not> readsAsZero (magnitude d)"
    then have "round64 (magnitude d) = PInf \<or> (\<exists>r. round64 (magnitude d) = Fin r \<and> 0 < r)"
      by (intro round64_reads_positive) simp
    then show "literalNumber d = NInf \<or> (\<exists>r. literalNumber d = Fin r \<and> r < 0)"
    proof
      assume "round64 (magnitude d) = PInf"
      then show ?thesis using a by (simp add: literalNumber_def)
    next
      assume "\<exists>r. round64 (magnitude d) = Fin r \<and> 0 < r"
      then obtain r where "round64 (magnitude d) = Fin r" "0 < r" by blast
      then have "literalNumber d = Fin (- r) \<and> - r < 0" using a by (simp add: literalNumber_def)
      then show ?thesis by blast
    qed
  qed
  have 3: "\<not> hasMinus d \<and> readsWithinCeiling (magnitude d) \<longrightarrow>
            (\<exists>r. literalNumber d = Fin r \<and> 0 \<le> r \<and> r \<le> 1000000000)"
    using round64_within_ceiling[OF m0] by (simp add: literalNumber_def)
  have 4: "\<not> hasMinus d \<and> \<not> readsWithinCeiling (magnitude d) \<longrightarrow>
            literalNumber d = PInf \<or> (\<exists>r. literalNumber d = Fin r \<and> 1000000000 < r)"
    using round64_above_ceiling[of "magnitude d"] by (simp add: literalNumber_def)
  from 1 2 3 4 show ?thesis by blast
qed

text \<open>The currency validator on a string that starts with a literal.\<close>

lemma validateCurrency_literal:
  assumes "wellFormed d" and "stops d rest" and "list_all isWhiteSpace ws"
  shows "validateCurrency (JStr (ws @ literalText d @ rest)) f =
           (if hasMinus d \<and> \<not> readsAsZero (magnitude d) then
              \<lparr>isValid = False, val = Fin 0,
               error = Some (the_default ''Value'' f @ '' cannot be negative'')\<rparr>
            else if \<not> hasMinus d \<and> \<not> readsWithinCeiling (magnitude d) then
              \<lparr>isValid = False, val = Fin 0,
               error = Some (the_default ''Value'' f @ '' exceeds maximum allowed value'')\<rparr>
            else \<lparr>isValid = True, val = literalNumber d, error = None\<rparr>)"
proof -
  define s where "s = ws @ literalText d @ rest"
  have ne: "s \<noteq> []" unfolding s_def using assms(1) by (rule literalText_nonempty)
  have pf: "parseFloat (JStr s) = literalNumber d"
    unfolding s_def using assms by (rule parseFloat_literal)
  have unf: "validateCurrency (JStr (ws @ literalText d @ rest)) f =
      (let parsed = literalNumber d
       in if isNaN parsed then
            \<lparr>isValid = False, val = Fin 0,
             error = Some (the_default ''Value'' f @ '' must be a valid number'')\<rparr>
          else if js_lt parsed (Fin 0) then
            \<lparr>isValid = False, val = Fin 0,
             error = Some (the_default ''Value'' f @ '' cannot be negative'')\<rparr>
          else if js_gt parsed (Fin 1000000000) then
            \<lparr>isValid = False, val = Fin 0,
             error = Some (the_default ''Value'' f @ '' exceeds maximum allowed value'')\<rparr>
          else \<lparr>isValid = True, val = parsed, error = None\<rparr>)"
    unfolding s_def[symmetric] using ne unfolding validateCurrency_def pf by (simp add: Let_def)
  note c = literalNumber_cases[OF assms(1)]
  consider (nz) "hasMinus d" "readsAsZero (magnitude d)"
    | (neg) "hasMinus d" "\<not> readsAsZero (magnitude d)"
    | (ok) "\<not> hasMinus d" "readsWithinCeiling (magnitude d)"
    | (big) "\<not> hasMinus d" "\<not> readsWithinCeiling (magnitude d)"
    by blast
  then show ?thesis
  proof cases
    case nz
    with c have "literalNumber d = NZero" by blast
    then show ?thesis unfolding unf using nz by (simp add: isNaN_def js_gt_def)
  next
    case neg
    with c have "literalNumber d = NInf \<or> (\<exists>r. literalNumber d = Fin r \<and> r < 0)" by blast
    then show ?thesis unfolding unf using neg by (auto simp: isNaN_def js_gt_def)
  next
    case ok
    with c obtain r where "literalNumber d = Fin r" "0 \<le> r" "r \<le> 1000000000" by blast
    then show ?thesis unfolding unf using ok by (simp add: isNaN_def js_gt_def)
  next
    case big
    with c have "literalNumber d = PInf \<or> (\<exists>r. literalNumber d = Fin r \<and> 1000000000 < r)"
      by blast
    then show ?thesis unfolding unf using big by (auto simp: isNaN_def js_gt_def)
  qed
qed

text \<open>
  \<^verbatim>\<open>parseInt\<close> reads a sign and a run of digits, after any white space and before any
  text that does not start with a digit.
\<close>

lemma parseInt10_prefix:
  assumes "isSign sg" and "ds \<noteq> []" and "list_all decimalDigit ds"
    and "rest = [] \<or> \<not> decimalDigit (hd rest)" and "list_all isWhiteSpace ws"
  shows "parseInt10 (JStr (ws @ sg @ ds @ rest)) =
           (if sg = ''-'' then js_neg (round64 (of_int (decimalValue ds)))
            else round64 (of_int (decimalValue ds)))"
proof -
  note dd = digits_are_digits[OF assms(3)]
  obtain c cs where c: "ds = c # cs" using assms(2) by (cases ds) auto
  with dd have cd: "isDigit c" by simp
  have b1: "ds @ rest \<noteq> []" and b2: "isDigit (hd (ds @ rest)) \<or> hd (ds @ rest) = CHR ''.''"
    using cd by (simp_all add: c)
  have b3: "hd (ds @ rest) \<noteq> CHR ''-''" "hd (ds @ rest) \<noteq> CHR ''+''"
    using cd by (auto simp: c isDigit_def)
  have tr: "trimStart (ws @ sg @ ds @ rest) = sg @ ds @ rest"
    using assms(5) sign_head[OF assms(1) b1 b2] by (rule trimStart_spaces)
  have sp: "splitSign (sg @ ds @ rest) = (if sg = ''-'' then - 1 else 1, ds @ rest)"
    using assms(1) b1 b3 by (rule splitSign_sign)
  have r: "rest = [] \<or> \<not> isDigit (hd rest)" using assms(4) by (simp add: decimalDigit_iff)
  have tw: "takeWhile isDigit (ds @ rest) = ds" using takeWhile_digits[OF dd r] by simp
  show ?thesis
    unfolding parseInt10_def ToString.simps parseInt10_str_def tr sp Let_def prod.case tw
    using assms(2) by (simp add: decimalValue_digitsVal[OF assms(3)])
qed

lemma round64_positive_integer:
  assumes "0 < n"
  shows "round64 (of_int n) = PInf \<or> (\<exists>r. round64 (of_int n) = Fin r \<and> 0 < r)"
proof -
  have "(2::rat) powi 0 \<le> of_int n" using assms by simp
  from round64_ge_pow2[OF this] have
    "round64 (of_int n) = PInf \<or> (\<exists>r. round64 (of_int n) = Fin r \<and> 2 powi 0 \<le> r)" by simp
  then show ?thesis by auto
qed

lemma validatePositiveInteger_prefix:
  assumes "isSign sg" and "ds \<noteq> []" and "list_all decimalDigit ds"
    and "rest = [] \<or> \<not> decimalDigit (hd rest)" and "list_all isWhiteSpace ws"
  shows "validatePositiveInteger L (JStr (ws @ sg @ ds @ rest)) f None =
           (if sg = ''-'' \<and> decimalValue ds \<noteq> 0 then
              \<lparr>isValid = False, val = None,
               error = Some (the_default ''Value'' f @ '' must be at least 0'')\<rparr>
            else \<lparr>isValid = True,
                  val = Some (if sg = ''-'' then NZero else round64 (of_int (decimalValue ds))),
                  error = None\<rparr>)"
proof -
  define s where "s = ws @ sg @ ds @ rest"
  let ?n = "decimalValue ds"
  let ?p = "if sg = ''-'' then js_neg (round64 (of_int ?n)) else round64 (of_int ?n)"
  have ne: "s \<noteq> []" unfolding s_def using assms(2) by simp
  have pi: "parseInt10 (JStr s) = ?p" unfolding s_def using assms by (rule parseInt10_prefix)
  have n0: "0 \<le> ?n" using assms(3) by (rule decimalValue_nonneg)
  have inf: "\<not> js_lt PInf x" for x by (cases x) simp_all
  have unf: "validatePositiveInteger L (JStr (ws @ sg @ ds @ rest)) f None =
      (let parsed = ?p
       in if isNaN parsed then
            \<lparr>isValid = False, val = None,
             error = Some (the_default ''Value'' f @ '' must be a valid number'')\<rparr>
          else if js_lt parsed (Fin 0) then
            \<lparr>isValid = False, val = None,
             error = Some (the_default ''Value'' f @ '' must be at least 0'')\<rparr>
          else \<lparr>isValid = True, val = Some parsed, error = None\<rparr>)"
    unfolding s_def[symmetric] using ne unfolding validatePositiveInteger_def pi
    by (simp add: Let_def the_default_def js_gt_def inf)
  consider (nz) "sg = ''-''" "?n = 0" | (neg) "sg = ''-''" "0 < ?n" | (pos) "sg \<noteq> ''-''"
    using n0 by fastforce
  then show ?thesis
  proof cases
    case nz
    then show ?thesis unfolding unf by (simp add: round64_zero isNaN_def)
  next
    case neg
    from round64_positive_integer[OF neg(2)]
    have "?p = NInf \<or> (\<exists>r. ?p = Fin r \<and> r < 0)"
    proof
      assume "round64 (of_int ?n) = PInf"
      then show ?thesis using neg(1) by simp
    next
      assume "\<exists>r. round64 (of_int ?n) = Fin r \<and> 0 < r"
      then obtain r where "round64 (of_int ?n) = Fin r" "0 < r" by blast
      then have "?p = Fin (- r) \<and> - r < 0" using neg(1) by simp
      then show ?thesis by blast
    qed
    then show ?thesis unfolding unf using neg by (auto simp: isNaN_def Let_def)
  next
    case pos
    have "\<not> js_lt (round64 (of_int ?n)) (Fin 0)" using n0 by (intro round64_nonneg) simp
    then show ?thesis unfolding unf using pos by (simp add: isNaN_def round64_not_NaN)
  qed
qed

section \<open>The currency validator on numeric input\<close>

text \<open>Number-to-String followed by \<^verbatim>\<open>parseFloat\<close> gives a negative Number back as well.\<close>

lemma parseFloat_negative_number:
  assumes "is_double x" and "x < 0"
  shows "parseFloat (JNum (Fin x)) = Fin x"
proof -
  have pos: "0 < - x" using assms(2) by simp
  have dbl: "is_double (- x)" using assms(1) by (simp add: is_double_minus)
  obtain s n where sn: "shortest (- x) = (s, n)" by (cases "shortest (- x)")
  from shortest_roundtrips[OF dbl pos] have
    r: "0 < s" "round64 (of_int s * 10 powi (n - int (length (digits10 s)))) = Fin (- x)"
    by (simp_all add: roundtrips_def sn)
  obtain d cs where f: "formatDigits (s, n) = d # cs" "isDigit d"
    using formatDigits_first_digit[OF r(1)] by blast
  have su: "strUnsigned (d # cs) = Some (of_int s * 10 powi (n - int (length (digits10 s))))"
    using strUnsigned_format[OF r(1), of n] by (simp add: f(1))
  have "d \<noteq> CHR ''I''" using f(2) by (auto simp: isDigit_def)
  then have "parseFloat_str (CHR ''-'' # d # cs) =
      js_neg (round64 (of_int s * 10 powi (n - int (length (digits10 s)))))"
    by (simp add: parseFloat_str_def trimStart_def isWhiteSpace_def su)
  then show ?thesis
    using assms(2) by (simp add: parseFloat_def sn f(1) r(2))
qed

lemma binexp_numeral:
  "binexp (numeral k) q =
     (if 2 \<le> q then binexp (pred_numeral k) (q / 2) + 1
      else if q < 1 then binexp (pred_numeral k) (q * 2) - 1
      else 0)"
  by (simp add: numeral_eq_Suc)

lemma parseFloat_number:
  assumes "is_double x"
  shows "parseFloat (JNum (Fin x)) = Fin x"
  using assms parseFloat_numberToString[of x] parseFloat_negative_number[of x]
  by (cases "0 \<le> x") simp_all

lemma parseFloat_negative_zero: "parseFloat (JNum NZero) = Fin 0"
  by (simp add: parse_defs round64_zero)

lemma validateCurrency_number:
  assumes "is_double x"
  shows "validateCurrency (JNum (Fin x)) f =
           (if x < 0 then
              \<lparr>isValid = False, val = Fin 0,
               error = Some (the_default ''Value'' f @ '' cannot be negative'')\<rparr>
            else if 1000000000 < x then
              \<lparr>isValid = False, val = Fin 0,
               error = Some (the_default ''Value'' f @ '' exceeds maximum allowed value'')\<rparr>
            else \<lparr>isValid = True, val = Fin x, error = None\<rparr>)"
  by (simp add: validateCurrency_def Let_def isNaN_def js_gt_def parseFloat_number[OF assms])

lemma nonneg_literal:
  assumes "wellFormed d" and "0 \<le> literalValue d" and "literalValue d \<le> 1000000000"
  shows "(hasMinus d \<longrightarrow> readsAsZero (magnitude d)) \<and>
         (\<not> hasMinus d \<longrightarrow> readsWithinCeiling (magnitude d))"
proof -
  note m0 = magnitude_nonneg[OF assms(1)]
  have "hasMinus d \<longrightarrow> magnitude d = 0"
    using assms(2) m0 by (auto simp: literalValue_def split: if_splits)
  moreover have "readsAsZero 0" by (simp add: readsAsZero_def)
  moreover have "\<not> hasMinus d \<longrightarrow> magnitude d \<le> 1000000000"
    using assms(3) by (auto simp: literalValue_def split: if_splits)
  ultimately show ?thesis by (auto simp: readsWithinCeiling_def)
qed

text \<open>
  C3, as the code has it. \<open>validateCurrency\<close> is the reference definition of section 4.1
  with the tests of clauses (3) to (5) made on the parsed Number: empty, null or undefined
  input is valid with value 0; input whose numeric parse fails is invalid with ``<field>
  must be a valid number''; input whose parsed Number is below zero is invalid with
  ``<field> cannot be negative''; input whose parsed Number is above 1,000,000,000 is
  invalid with ``<field> exceeds maximum allowed value''; every other input is valid with
  the parsed Number as its value and no error; invalid results carry the value 0.

  A Number given as input is parsed to itself, so it is tested by its own value. A numeric
  string (white space, then a decimal literal with optional sign, fraction and exponent)
  is parsed to the Number nearest to the value it denotes. So it is invalid with ``cannot
  be negative'' when it has a minus sign and a magnitude above \<open>2\<^sup>-\<^sup>1\<^sup>0\<^sup>7\<^sup>5\<close>, invalid with
  ``exceeds maximum allowed value'' when it has no minus sign and a magnitude above
  \<open>10\<^sup>9 + 2\<^sup>-\<^sup>2\<^sup>4\<close>, and valid otherwise, its value being the parsed Number. In particular
  every numeric string that denotes a value from 0 to 1,000,000,000 is valid, and its
  value is what \<^verbatim>\<open>parseFloat\<close> gives: a Number from 0 to 1,000,000,000, or \<open>-0\<close>.
\<close>

theorem validateCurrency_numeric_input:
  assumes "wellFormed d" and "list_all isWhiteSpace ws" and "is_double x"
  shows
    "validateCurrency v f = CurrencyValidator_spec v (the_default ''Value'' f) \<and>
     validateCurrency (JNum (Fin x)) f =
       (if x < 0 then
          \<lparr>isValid = False, val = Fin 0,
           error = Some (the_default ''Value'' f @ '' cannot be negative'')\<rparr>
        else if 1000000000 < x then
          \<lparr>isValid = False, val = Fin 0,
           error = Some (the_default ''Value'' f @ '' exceeds maximum allowed value'')\<rparr>
        else \<lparr>isValid = True, val = Fin x, error = None\<rparr>) \<and>
     parseFloat (JStr (ws @ literalText d)) = literalNumber d \<and>
     validateCurrency (JStr (ws @ literalText d)) f =
       (if hasMinus d \<and> \<not> readsAsZero (magnitude d) then
          \<lparr>isValid = False, val = Fin 0,
           error = Some (the_default ''Value'' f @ '' cannot be negative'')\<rparr>
        else if \<not> hasMinus d \<and> \<not> readsWithinCeiling (magnitude d) then
          \<lparr>isValid = False, val = Fin 0,
           error = Some (the_default ''Value'' f @ '' exceeds maximum allowed value'')\<rparr>
        else \<lparr>isValid = True, val = parseFloat (JStr (ws @ literalText d)), error = None\<rparr>) \<and>
     (0 \<le> literalValue d \<and> literalValue d \<le> 1000000000 \<longrightarrow>
        validateCurrency (JStr (ws @ literalText d)) f =
          \<lparr>isValid = True, val = parseFloat (JStr (ws @ literalText d)), error = None\<rparr> \<and>
        (parseFloat (JStr (ws @ literalText d)) = NZero \<or>
         (\<exists>r. parseFloat (JStr (ws @ literalText d)) = Fin r \<and> 0 \<le> r \<and> r \<le> 1000000000)))"
proof -
  have st: "stops d []" by (simp add: stops_def)
  have pf: "parseFloat (JStr (ws @ literalText d)) = literalNumber d"
    using parseFloat_literal[OF assms(1) st assms(2)] by simp
  have vc: "validateCurrency (JStr (ws @ literalText d)) f =
       (if hasMinus d \<and> \<not> readsAsZero (magnitude d) then
          \<lparr>isValid = False, val = Fin 0,
           error = Some (the_default ''Value'' f @ '' cannot be negative'')\<rparr>
        else if \<not> hasMinus d \<and> \<not> readsWithinCeiling (magnitude d) then
          \<lparr>isValid = False, val = Fin 0,
           error = Some (the_default ''Value'' f @ '' exceeds maximum allowed value'')\<rparr>
        else \<lparr>isValid = True, val = literalNumber d, error = None\<rparr>)"
    using validateCurrency_literal[OF assms(1) st assms(2), of f] by simp
  have rg: "0 \<le> literalValue d \<and> literalValue d \<le> 1000000000 \<longrightarrow>
        validateCurrency (JStr (ws @ literalText d)) f =
          \<lparr>isValid = True, val = literalNumber d, error = None\<rparr> \<and>
        (literalNumber d = NZero \<or>
         (\<exists>r. literalNumber d = Fin r \<and> 0 \<le> r \<and> r \<le> 1000000000))"
  proof (rule impI)
    assume a: "0 \<le> literalValue d \<and> literalValue d \<le> 1000000000"
    then have n: "(hasMinus d \<longrightarrow> readsAsZero (magnitude d)) \<and>
         (\<not> hasMinus d \<longrightarrow> readsWithinCeiling (magnitude d))"
      using nonneg_literal[OF assms(1)] by simp
    then have "validateCurrency (JStr (ws @ literalText d)) f =
          \<lparr>isValid = True, val = literalNumber d, error = None\<rparr>"
      unfolding vc by auto
    moreover have "literalNumber d = NZero \<or>
         (\<exists>r. literalNumber d = Fin r \<and> 0 \<le> r \<and> r \<le> 1000000000)"
      using literalNumber_cases[OF assms(1)] n by blast
    ultimately show "validateCurrency (JStr (ws @ literalText d)) f =
          \<lparr>isValid = True, val = literalNumber d, error = None\<rparr> \<and>
        (literalNumber d = NZero \<or>
         (\<exists>r. literalNumber d = Fin r \<and> 0 \<le> r \<and> r \<le> 1000000000))"
      by (rule conjI)
  qed
  show ?thesis
    unfolding pf using validateCurrency_cascade[of v f] validateCurrency_number[OF assms(3), of f]
      vc rg by (intro conjI) simp_all
qed

theorem validateCurrency_numeric_input_witness:
  "validateCurrency (JStr '' 12.5'') None =
     \<lparr>isValid = True, val = Fin (25 / 2), error = None\<rparr> \<and>
   validateCurrency (JNum (Fin (25 / 2))) None =
     \<lparr>isValid = True, val = Fin (25 / 2), error = None\<rparr> \<and>
   validateCurrency (JStr ''abc'') None =
     CurrencyValidator_spec (JStr ''abc'') ''Value''"
proof -
  define d where "d = \<lparr>lit_sign = [], lit_whole = ''12'', lit_frac = Some ''5'', lit_exp = None\<rparr>"
  have h: "round64 (25 / 2) = Fin (25 / 2)"
    using round64_halves [of "Num.Bit1 (Num.Bit0 (Num.Bit0 (Num.Bit1 Num.One)))"] by simp
  have dbl: "is_double (25 / 2)" using is_double_halves[of 25] by simp
  have wf: "wellFormed d"
    by (simp add: d_def wellFormed_def isSign_def decimalDigit_def)
  have ws: "list_all isWhiteSpace '' ''" by (simp add: isWhiteSpace_def)
  have tx: "'' '' @ literalText d = '' 12.5''" by (simp add: d_def literalText_def)
  have m: "magnitude d = 25 / 2"
    by (simp add: d_def magnitude_def exponentOf_def digitOf_def)
  have hm: "\<not> hasMinus d" by (simp add: d_def hasMinus_def)
  have n: "literalNumber d = Fin (25 / 2)" by (simp add: literalNumber_def m h hm)
  have v: "literalValue d = 25 / 2" by (simp add: literalValue_def m hm)
  have rc: "readsWithinCeiling (magnitude d)" by (simp add: m readsWithinCeiling_def)
  from validateCurrency_numeric_input [OF wf ws dbl, of "JStr ''abc''" None]
  show ?thesis
    unfolding tx by (simp add: the_default_def v n hm rc)
qed

text \<open>
  The claim as it was stated fails in clauses (3) and (4), which speak of the value the
  input denotes: a string that denotes a value above the ceiling by less than half a unit
  in the last place parses to the ceiling itself and is accepted, and a string that
  denotes a negative value too small to be represented parses to \<open>-0\<close> and is accepted.
\<close>

theorem validateCurrency_counterexample:
  "validateCurrency (JStr ''1000000000.00000001'') None =
     \<lparr>isValid = True, val = Fin 1000000000, error = None\<rparr> \<and>
   validateCurrency (JStr ''-1e-400'') None = \<lparr>isValid = True, val = NZero, error = None\<rparr>"
proof -
  have b: "binexp 1100 (100000000000000001 / 100000000) = 29"
    by (simp add: binexp_numeral)
  have fl: "\<lfloor>(3276800000000000032768::rat) / 390625\<rfloor> = 8388608000000000"
    by (simp add: floor_eq_iff)
  have "round64 (100000000000000001 / 100000000) = Fin 1000000000"
    by (simp add: round64_def Let_def b round_half_even_def power_int_minus fl)
  then have p1: "parseFloat (JStr ''1000000000.00000001'') = Fin 1000000000"
    by (simp add: parse_defs power_int_minus)
  have "readsAsZero (1 / 10 ^ 400)" by (simp add: readsAsZero_def)
  then have "round64 (1 / 10 ^ 400) = Fin 0" by (intro round64_reads_as_zero) simp_all
  then have p2: "parseFloat (JStr ''-1e-400'') = NZero"
    by (simp add: parse_defs power_int_minus)
  show ?thesis by (simp add: validator_defs p1 p2)
qed

section \<open>Lenient prefix parsing at the interface\<close>

text \<open>
  C10, as the code has it. For every string made of optional white space, a decimal
  literal (optional sign, digits, optional point and fraction, optional exponent, with a
  digit before or after the point) and then any text that cannot continue the literal
  (such as ``12abc'', `` 12abc'', ``+12abc'', ``.5abc'' or ``12e3abc''),
  \<open>validateCurrency\<close> parses the literal to the binary64 Number nearest to the value it
  denotes and never reports ``must be a valid number''. The result is ``cannot be
  negative'' when the literal has a minus sign and a magnitude above \<open>2\<^sup>-\<^sup>1\<^sup>0\<^sup>7\<^sup>5\<close>, ``exceeds
  maximum allowed value'' when it has no minus sign and a magnitude above \<open>10\<^sup>9 + 2\<^sup>-\<^sup>2\<^sup>4\<close>,
  and otherwise valid with that Number as its value.

  For every string made of optional white space, an optional sign, a non-empty run of
  digits and then any text that does not start with a digit (such as ``3.7''),
  \<open>validatePositiveInteger\<close> parses the digits to the binary64 Number nearest to the
  integer they denote, with the sign. Under the default options the result is ``must be at
  least 0'' when the sign is a minus and the integer is not zero, and otherwise valid with
  that Number as its value (\<open>-0\<close> after a minus sign).
\<close>

theorem lenient_prefix_parsing:
  assumes "wellFormed d" and "stops d rest" and "list_all isWhiteSpace ws"
    and "isSign sg" and "ds \<noteq> []" and "list_all decimalDigit ds"
    and "after = [] \<or> \<not> decimalDigit (hd after)"
  shows
    "parseFloat (JStr (ws @ literalText d @ rest)) = literalNumber d \<and>
     validateCurrency (JStr (ws @ literalText d @ rest)) f =
       (if hasMinus d \<and> \<not> readsAsZero (magnitude d) then
          \<lparr>isValid = False, val = Fin 0,
           error = Some (the_default ''Value'' f @ '' cannot be negative'')\<rparr>
        else if \<not> hasMinus d \<and> \<not> readsWithinCeiling (magnitude d) then
          \<lparr>isValid = False, val = Fin 0,
           error = Some (the_default ''Value'' f @ '' exceeds maximum allowed value'')\<rparr>
        else \<lparr>isValid = True, val = literalNumber d, error = None\<rparr>) \<and>
     error (validateCurrency (JStr (ws @ literalText d @ rest)) f) \<noteq>
       Some (the_default ''Value'' f @ '' must be a valid number'') \<and>
     parseInt10 (JStr (ws @ sg @ ds @ after)) =
       (if sg = ''-'' then js_neg (round64 (of_int (decimalValue ds)))
        else round64 (of_int (decimalValue ds))) \<and>
     validatePositiveInteger L (JStr (ws @ sg @ ds @ after)) g None =
       (if sg = ''-'' \<and> decimalValue ds \<noteq> 0 then
          \<lparr>isValid = False, val = None,
           error = Some (the_default ''Value'' g @ '' must be at least 0'')\<rparr>
        else \<lparr>isValid = True,
              val = Some (if sg = ''-'' then NZero else round64 (of_int (decimalValue ds))),
              error = None\<rparr>)"
proof -
  note vc = validateCurrency_literal[OF assms(1,2,3), of f]
  have "error (validateCurrency (JStr (ws @ literalText d @ rest)) f) \<noteq>
       Some (the_default ''Value'' f @ '' must be a valid number'')"
    unfolding vc by simp
  then show ?thesis
    using parseFloat_literal[OF assms(1,2,3)] vc parseInt10_prefix[OF assms(4,5,6,7,3)]
      validatePositiveInteger_prefix[OF assms(4,5,6,7,3), of L g]
    by (intro conjI)
qed

theorem lenient_prefix_parsing_witness:
  "validateCurrency (JStr ''12abc'') None = \<lparr>isValid = True, val = Fin 12, error = None\<rparr> \<and>
   validateCurrency (JStr '' +.5e1abc'') None =
     \<lparr>isValid = True, val = Fin 5, error = None\<rparr> \<and>
   validatePositiveInteger numberToString (JStr ''3.7'') None None =
     \<lparr>isValid = True, val = Some (Fin 3), error = None\<rparr> \<and>
   validatePositiveInteger numberToString (JStr '' +3.7'') None None =
     \<lparr>isValid = True, val = Some (Fin 3), error = None\<rparr>"
proof -
  define d1 where "d1 = \<lparr>lit_sign = [], lit_whole = ''12'', lit_frac = None, lit_exp = None\<rparr>"
  define d2 where "d2 = \<lparr>lit_sign = ''+'', lit_whole = [], lit_frac = Some ''5'',
    lit_exp = Some (CHR ''e'', [], ''1'')\<rparr>"
  have wf: "wellFormed d1" "wellFormed d2"
    by (simp_all add: d1_def d2_def wellFormed_def isSign_def decimalDigit_def)
  have st: "stops d1 ''abc''" "stops d2 ''abc''"
    by (simp_all add: d1_def d2_def stops_def decimalDigit_def)
  have ws: "list_all isWhiteSpace []" "list_all isWhiteSpace '' ''"
    by (simp_all add: isWhiteSpace_def)
  have tx: "[] @ literalText d1 @ ''abc'' = ''12abc''"
    "'' '' @ literalText d2 @ ''abc'' = '' +.5e1abc''"
    by (simp_all add: d1_def d2_def literalText_def)
  have m: "magnitude d1 = 12" "magnitude d2 = 5"
    by (simp_all add: d1_def d2_def magnitude_def exponentOf_def digitOf_def)
  have hm: "\<not> hasMinus d1" "\<not> hasMinus d2" by (simp_all add: d1_def d2_def hasMinus_def)
  have n: "literalNumber d1 = Fin 12" "literalNumber d2 = Fin 5"
    by (simp_all add: literalNumber_def m hm round64_numeral)
  have rc: "readsWithinCeiling 12" "readsWithinCeiling 5"
    by (simp_all add: readsWithinCeiling_def)
  have i: "isSign []" "isSign ''+''" "''3'' \<noteq> []" "list_all decimalDigit ''3''"
    "''.7'' = [] \<or> \<not> decimalDigit (hd ''.7'')"
    by (simp_all add: isSign_def decimalDigit_def)
  have tx3: "[] @ [] @ ''3'' @ ''.7'' = ''3.7''" "'' '' @ ''+'' @ ''3'' @ ''.7'' = '' +3.7''"
    by simp_all
  note t1 = lenient_prefix_parsing
    [OF wf(1) st(1) ws(1) i(1) i(3) i(4) i(5), of None numberToString None]
  note t2 = lenient_prefix_parsing
    [OF wf(2) st(2) ws(2) i(2) i(3) i(4) i(5), of None numberToString None]
  from t1 have "validateCurrency (JStr ''12abc'') None =
      \<lparr>isValid = True, val = Fin 12, error = None\<rparr>"
    unfolding tx by (simp add: m hm n rc)
  moreover from t2 have "validateCurrency (JStr '' +.5e1abc'') None =
      \<lparr>isValid = True, val = Fin 5, error = None\<rparr>"
    unfolding tx by (simp add: m hm n rc)
  moreover from t1 have "validatePositiveInteger numberToString (JStr ''3.7'') None None =
      \<lparr>isValid = True, val = Some (Fin 3), error = None\<rparr>"
    unfolding tx3 by (simp add: digitOf_def round64_numeral)
  moreover from t2 have "validatePositiveInteger numberToString (JStr '' +3.7'') None None =
      \<lparr>isValid = True, val = Some (Fin 3), error = None\<rparr>"
    unfolding tx3 by (simp add: digitOf_def round64_numeral)
  ultimately show ?thesis by blast
qed

text \<open>
  The claim as it was stated fails: a string with a numeric prefix followed by letters can
  be rejected, because the prefix exceeds the ceiling or is negative, and a decimal string
  can be rejected by the integer validator, because no digit stands before the point or
  because the integer before the point is negative.
\<close>

theorem lenient_prefix_counterexample:
  "validateCurrency (JStr ''2000000000abc'') None =
     \<lparr>isValid = False, val = Fin 0, error = Some ''Value exceeds maximum allowed value''\<rparr> \<and>
   validateCurrency (JStr ''-5abc'') None =
     \<lparr>isValid = False, val = Fin 0, error = Some ''Value cannot be negative''\<rparr> \<and>
   validatePositiveInteger numberToString (JStr ''.5'') None None =
     \<lparr>isValid = False, val = None, error = Some ''Value must be a valid number''\<rparr> \<and>
   validatePositiveInteger numberToString (JStr ''-3.7'') None None =
     \<lparr>isValid = False, val = None, error = Some ''Value must be at least 0''\<rparr>"
  by (simp add: validator_defs parse_defs round64_numeral)

section \<open>Idempotence\<close>

text \<open>
  The claim C7 as it was stated fails for both validators. The string of the digits of
  \<open>10\<^sup>2\<^sup>1\<close> is valid for \<open>validatePositiveInteger\<close> under the default options, with the
  Number \<open>10\<^sup>2\<^sup>1\<close> as its value; that Number, fed back, is first converted to the string
  \<^verbatim>\<open>1e+21\<close>, of which \<^verbatim>\<open>parseInt\<close> reads the leading \<^verbatim>\<open>1\<close> only, so the second result has
  the value 1. The string \<^verbatim>\<open>-0\<close> is valid for both validators with the value \<open>-0\<close>; that
  Number, fed back, is first converted to the string \<^verbatim>\<open>0\<close>, so the second result has the
  value \<open>+0\<close>.
\<close>

theorem idempotence_counterexample:
  "validatePositiveInteger numberToString (JStr ''1000000000000000000000'') None None =
     \<lparr>isValid = True, val = Some (Fin 1000000000000000000000), error = None\<rparr> \<and>
   validatePositiveInteger numberToString
     (fedBack (Some (Fin 1000000000000000000000))) None None =
     \<lparr>isValid = True, val = Some (Fin 1), error = None\<rparr> \<and>
   validateCurrency (JStr ''-0'') None = \<lparr>isValid = True, val = NZero, error = None\<rparr> \<and>
   validateCurrency (JNum NZero) None = \<lparr>isValid = True, val = Fin 0, error = None\<rparr> \<and>
   validatePositiveInteger numberToString (JStr ''-0'') None None =
     \<lparr>isValid = True, val = Some NZero, error = None\<rparr> \<and>
   validatePositiveInteger numberToString (fedBack (Some NZero)) None None =
     \<lparr>isValid = True, val = Some (Fin 0), error = None\<rparr>"
proof -
  have r64: "round64 1000000000000000000000 = Fin 1000000000000000000000"
    using round64_exact[OF is_double_pow10_21] by simp
  have r1: "round64 1 = Fin 1" using round64_int[of 1] by simp
  have a: "parseInt10 (JStr ''1000000000000000000000'') = Fin 1000000000000000000000"
    by (simp add: parse_defs r64)
  have b: "parseInt10 (JNum (Fin 1000000000000000000000)) = Fin 1"
    by (simp add: parseInt10_def numberToString_pow10_21 parseInt10_str_def trimStart_def
          isWhiteSpace_def isDigit_def digitVal_def digitsVal_def r1 del: numberToString.simps)
  have c: "parseFloat (JStr ''-0'') = NZero" "parseInt10 (JStr ''-0'') = NZero"
    "parseFloat (JNum NZero) = Fin 0" "parseInt10 (JNum NZero) = Fin 0"
    by (simp_all add: parse_defs round64_zero)
  show ?thesis
    by (simp add: validateCurrency_def validatePositiveInteger_def Let_def the_default_def
          isNaN_def js_gt_def fedBack_def a b c)
qed

lemma validateCurrency_idempotent:
  assumes "isValid (validateCurrency v f)" and "val (validateCurrency v f) \<noteq> NZero"
  shows "validateCurrency (JNum (val (validateCurrency v f))) f = validateCurrency v f"
proof (cases "isEmptyInput v")
  case True
  have "parseFloat (JNum (Fin 0)) = Fin 0"
    by (rule parseFloat_numberToString) (simp_all add: is_double_def)
  with True show ?thesis
    by (auto simp: validateCurrency_def isEmptyInput_def Let_def isNaN_def js_gt_def)
next
  case False
  then have ne: "v \<noteq> JStr []" "v \<noteq> JNull" "v \<noteq> JUndefined"
    by (auto simp: isEmptyInput_def)
  have res0: "validateCurrency v f =
      (case parseFloat v of
         NZero \<Rightarrow> \<lparr>isValid = True, val = NZero, error = None\<rparr>
       | Fin r \<Rightarrow>
           if r < 0 then
             \<lparr>isValid = False, val = Fin 0,
              error = Some (the_default ''Value'' f @ '' cannot be negative'')\<rparr>
           else if 1000000000 < r then
             \<lparr>isValid = False, val = Fin 0,
              error = Some (the_default ''Value'' f @ '' exceeds maximum allowed value'')\<rparr>
           else \<lparr>isValid = True, val = Fin r, error = None\<rparr>
       | NaN \<Rightarrow> \<lparr>isValid = False, val = Fin 0,
                  error = Some (the_default ''Value'' f @ '' must be a valid number'')\<rparr>
       | NInf \<Rightarrow> \<lparr>isValid = False, val = Fin 0,
                  error = Some (the_default ''Value'' f @ '' cannot be negative'')\<rparr>
       | PInf \<Rightarrow> \<lparr>isValid = False, val = Fin 0,
                  error = Some (the_default ''Value'' f @ '' exceeds maximum allowed value'')\<rparr>)"
    unfolding validateCurrency_cascade using False
    by (simp add: CurrencyValidator_spec_def split: jsnum.splits)
  from assms obtain r where p: "parseFloat v = Fin r" "0 \<le> r" "r \<le> 1000000000"
    unfolding res0 by (cases "parseFloat v") (auto split: if_splits)
  have "is_double r" using p(1) unfolding parseFloat_def by (rule parseFloat_str_double)
  then have rt: "parseFloat (JNum (Fin r)) = Fin r"
    using p(2) by (rule parseFloat_numberToString)
  have res: "validateCurrency v f = \<lparr>isValid = True, val = Fin r, error = None\<rparr>"
    unfolding res0 using p by simp
  show ?thesis unfolding res
    using p(2,3) by (simp add: validateCurrency_def Let_def isNaN_def js_gt_def rt)
qed

lemma validatePositiveInteger_idempotent:
  assumes "isValid (validatePositiveInteger L v f opts)"
    and "belowExponent (val (validatePositiveInteger L v f opts))"
  shows "validatePositiveInteger L (fedBack (val (validatePositiveInteger L v f opts))) f opts =
           validatePositiveInteger L v f opts"
proof (cases "isEmptyInput v")
  case True
  with assms(1) show ?thesis
    by (auto simp: validatePositiveInteger_def isEmptyInput_def Let_def fedBack_def
          split: if_splits)
next
  case False
  then have ne: "v \<noteq> JStr []" "v \<noteq> JNull" "v \<noteq> JUndefined"
    by (auto simp: isEmptyInput_def)
  define mn where "mn = minOf opts"
  define mx where "mx = maxOf opts"
  have res0: "validatePositiveInteger L w f opts =
      PositiveIntegerValidator_spec L w (the_default ''Value'' f) mn mx (allowEmptyOf opts)" for w
    unfolding mn_def mx_def
    by (simp add: validatePositiveInteger_def PositiveIntegerValidator_spec_def isEmptyInput_def
          Let_def isNaN_def js_gt_def minOf_def maxOf_def allowEmptyOf_def the_default_def
          split: option.splits)
  from assms(1) ne have ok: "parseInt10 v \<noteq> NaN" "\<not> js_lt (parseInt10 v) mn"
    "\<not> js_lt mx (parseInt10 v)"
    unfolding res0 by (auto simp: PositiveIntegerValidator_spec_def isEmptyInput_def split: if_splits)
  then have res: "validatePositiveInteger L v f opts =
      \<lparr>isValid = True, val = Some (parseInt10 v), error = None\<rparr>"
    unfolding res0 using ne by (simp add: PositiveIntegerValidator_spec_def isEmptyInput_def)
  from assms(2) have small: "parseInt10 v \<noteq> NZero"
    "js_lt (Fin (- 1000000000000000000000)) (parseInt10 v)"
    "js_lt (parseInt10 v) (Fin 1000000000000000000000)"
    unfolding res by (simp_all add: belowExponent_def)
  then obtain r where r: "parseInt10 v = Fin r" "- 1000000000000000000000 < r"
    "r < 1000000000000000000000"
    by (cases "parseInt10 v") simp_all
  from r(1) have "is_double r \<and> (\<exists>X. r = of_int X)"
    unfolding parseInt10_def by (rule parseInt10_str_integral)
  then obtain X where X: "is_double (of_int X)" "r = of_int X" by blast
  have "(of_int (- 1000000000000000000000) :: rat) < of_int X"
    "(of_int X :: rat) < of_int 1000000000000000000000"
    using r(2,3) X(2) by simp_all
  then have "- 1000000000000000000000 < X" "X < 1000000000000000000000"
    by (simp_all only: of_int_less_iff)
  then have "\<bar>X\<bar> < 10 ^ 21" by simp
  from parseInt10_numberToString[OF X(1) this] have rt: "parseInt10 (JNum (Fin r)) = Fin r"
    by (simp add: X(2))
  have "validatePositiveInteger L (JNum (Fin r)) f opts =
      \<lparr>isValid = True, val = Some (Fin r), error = None\<rparr>"
    unfolding res0 using ok by (simp add: PositiveIntegerValidator_spec_def isEmptyInput_def rt r(1))
  then show ?thesis unfolding res by (simp add: fedBack_def r(1))
qed

text \<open>
  C7, as the code has it. For every input on which \<open>validateCurrency\<close> returns a valid
  result whose value is not \<open>-0\<close>, feeding the returned value back, with the same label,
  yields the same result. For every input and options on which \<open>validatePositiveInteger\<close>
  returns a valid result whose value is \<^verbatim>\<open>null\<close> or a Number other than \<open>-0\<close> of magnitude
  below \<open>10\<^sup>2\<^sup>1\<close>, feeding the returned value back, with the same label and options,
  yields the same result. A returned \<open>-0\<close> that is fed back to \<open>validateCurrency\<close> yields
  the valid result with value \<open>+0\<close>.
\<close>

theorem idempotence_below_exponent:
  "(isValid (validateCurrency v f) \<and> val (validateCurrency v f) \<noteq> NZero \<longrightarrow>
      validateCurrency (JNum (val (validateCurrency v f))) f = validateCurrency v f) \<and>
   (isValid (validatePositiveInteger L w g opts) \<and>
    belowExponent (val (validatePositiveInteger L w g opts)) \<longrightarrow>
      validatePositiveInteger L (fedBack (val (validatePositiveInteger L w g opts))) g opts =
        validatePositiveInteger L w g opts) \<and>
   validateCurrency (JNum NZero) f = \<lparr>isValid = True, val = Fin 0, error = None\<rparr>"
proof -
  have "validateCurrency (JNum NZero) f = \<lparr>isValid = True, val = Fin 0, error = None\<rparr>"
    by (simp add: validateCurrency_def Let_def isNaN_def js_gt_def parseFloat_negative_zero)
  then show ?thesis
    using validateCurrency_idempotent validatePositiveInteger_idempotent by blast
qed

theorem idempotence_below_exponent_witness:
  "validateCurrency (JNum (Fin (25 / 2))) None =
     \<lparr>isValid = True, val = Fin (25 / 2), error = None\<rparr> \<and>
   validatePositiveInteger numberToString (JNum (Fin 42)) None None =
     \<lparr>isValid = True, val = Some (Fin 42), error = None\<rparr> \<and>
   validatePositiveInteger numberToString JNull None None =
     \<lparr>isValid = True, val = None, error = None\<rparr>"
proof -
  have h: "round64 (25 / 2) = Fin (25 / 2)"
    using round64_halves [of "Num.Bit1 (Num.Bit0 (Num.Bit0 (Num.Bit1 Num.One)))"] by simp
  have a: "validateCurrency (JStr ''12.5'') None =
      \<lparr>isValid = True, val = Fin (25 / 2), error = None\<rparr>"
    by (simp add: validator_defs parse_defs power_int_minus h)
  have b: "validatePositiveInteger numberToString (JStr ''42'') None None =
      \<lparr>isValid = True, val = Some (Fin 42), error = None\<rparr>"
    by (simp add: validator_defs parse_defs round64_numeral)
  have c: "validatePositiveInteger numberToString (JStr '''') None None =
      \<lparr>isValid = True, val = None, error = None\<rparr>"
    by (simp add: validator_defs)
  note t1 = idempotence_below_exponent
    [of "JStr ''12.5''" None numberToString "JStr ''42''" None None]
  note t2 = idempotence_below_exponent
    [of "JStr ''12.5''" None numberToString "JStr ''''" None None]
  from t1 have "validateCurrency (JNum (Fin (25 / 2))) None =
      \<lparr>isValid = True, val = Fin (25 / 2), error = None\<rparr>"
    unfolding a by simp
  moreover from t1 have "validatePositiveInteger numberToString (JNum (Fin 42)) None None =
      \<lparr>isValid = True, val = Some (Fin 42), error = None\<rparr>"
    unfolding b by (simp add: belowExponent_def fedBack_def)
  moreover from t2 have "validatePositiveInteger numberToString JNull None None =
      \<lparr>isValid = True, val = None, error = None\<rparr>"
    unfolding c by (simp add: belowExponent_def fedBack_def)
  ultimately show ?thesis by blast
qed

section \<open>Totality and the optional sink\<close>

text \<open>
  With arguments of their documented types the calls raise nothing and return what the
  typed definitions return.
\<close>

lemma validatePositiveInteger_call_typed:
  "validatePositiveInteger_call L v f (optionsArg opts) = Inr (validatePositiveInteger L v f opts)"
proof (cases opts)
  case None
  then show ?thesis
    by (simp add: validatePositiveInteger_call_def validatePositiveInteger_def optionsArg_def
          Let_def the_default_def)
next
  case (Some r)
  show ?thesis
  proof (cases "opt_max r")
    case None
    then show ?thesis
      by (cases "opt_min r"; cases "allowEmpty r")
         (simp_all add: validatePositiveInteger_call_def validatePositiveInteger_def
            optionsArg_def propArg_def Let_def the_default_def Some)
  next
    case mx: (Some m)
    then show ?thesis
      by (cases "opt_min r"; cases "allowEmpty r")
         (simp_all add: validatePositiveInteger_call_def validatePositiveInteger_def
            optionsArg_def propArg_def Let_def the_default_def Some)
  qed
qed

lemma validateYear_call_typed:
  "validateYear_call L y v f = Inr (validateYear L y v f)"
  using validatePositiveInteger_call_typed
    [of L v "Some (the_default ''Year'' f)"
        "Some \<lparr>opt_min = Some (Fin 1900), opt_max = Some (js_add y (Fin 2)),
               allowEmpty = Some True\<rparr>"]
  by (simp add: validateYear_call_def validateYear_def optionsArg_def propArg_def)

lemma validateOdometer_call_typed:
  "validateOdometer_call L v f = Inr (validateOdometer L v f)"
  using validatePositiveInteger_call_typed
    [of L v "Some (the_default ''Odometer'' f)"
        "Some \<lparr>opt_min = Some (Fin 0), opt_max = Some (Fin 10000000), allowEmpty = Some True\<rparr>"]
  by (simp add: validateOdometer_call_def validateOdometer_def optionsArg_def propArg_def)

lemma warnAndReturn_typed:
  "warnAndReturn (toastArg t) msg r = Inr (r, toastArg (optWarning t msg))"
  by (cases t) (simp_all add: warnAndReturn_def toastArg_def optWarning_def)

lemma warnAndReturn_Null: "warnAndReturn Null msg r = Inr (r, Null)"
  by (simp add: warnAndReturn_def)

lemma validateBudget_call_typed:
  "validateBudget_call b (toastArg t) = Inr (map_prod id toastArg (validateBudget b t))"
  by (simp add: validateBudget_call_def validateBudget_def Let_def warnAndReturn_typed)

lemma validatePartCosts_call_typed:
  "validatePartCosts_call (Val c) (toastArg t) =
     Inr (map_prod id toastArg (validatePartCosts c t))"
  by (simp add: validatePartCosts_call_def validatePartCosts_def Let_def warnAndReturn_typed)

lemma validateBudget_call_Null:
  "validateBudget_call b Null = Inr (fst (validateBudget b None), Null)"
  by (simp add: validateBudget_call_def validateBudget_def Let_def warnAndReturn_Null)

lemma validatePartCosts_call_Null:
  "validatePartCosts_call (Val c) Null = Inr (fst (validatePartCosts c None), Null)"
  by (simp add: validatePartCosts_call_def validatePartCosts_def Let_def warnAndReturn_Null)

text \<open>
  The claim C8 as it was stated fails: \<^verbatim>\<open>validatePartCosts\<close> raises a \<^verbatim>\<open>TypeError\<close> when
  its input \<^verbatim>\<open>costs\<close> is \<^verbatim>\<open>null\<close> or \<^verbatim>\<open>undefined\<close>, whatever the toast argument is. So does
  \<^verbatim>\<open>validatePositiveInteger\<close> on the string \<^verbatim>\<open>5\<close> when \<^verbatim>\<open>options\<close> is \<^verbatim>\<open>null\<close>, or when
  the option \<^verbatim>\<open>max\<close> is \<^verbatim>\<open>null\<close>; and so does \<^verbatim>\<open>validateBudget\<close> on an invalid budget when
  the toast object has no \<^verbatim>\<open>warning\<close> function.
\<close>

theorem validators_raise_counterexample:
  "validatePartCosts_call Null (Val (WithWarning [])) = Inl TypeError \<and>
   validatePartCosts_call Undefined Null = Inl TypeError \<and>
   validatePositiveInteger_call numberToString (JStr ''5'') None Null = Inl TypeError \<and>
   validatePositiveInteger_call numberToString (JStr ''5'') None
     (Val \<lparr>min_prop = Undefined, max_prop = Null, allowEmpty_prop = Undefined\<rparr>)
     = Inl TypeError \<and>
   validateBudget_call (JStr ''abc'') (Val WithoutWarning) = Inl TypeError"
proof -
  have p: "parseInt10 (JStr ''5'') = Fin 5" by (simp add: parse_defs round64_numeral)
  have q: "parseFloat (JStr ''abc'') = NaN" by (simp add: parse_defs)
  show ?thesis
    by (simp add: validatePartCosts_call_def validatePositiveInteger_call_def
          validateBudget_call_def validateCurrency_def warnAndReturn_def Let_def isNaN_def
          js_gt_def p q)
qed

text \<open>
  C8, as the code has it. For every raw input (a string, a number, \<^verbatim>\<open>null\<close> or
  \<^verbatim>\<open>undefined\<close>) the field validators raise nothing and return a structured result:
  \<open>validateCurrency\<close> has no statement that can raise; \<open>validatePositiveInteger\<close> returns
  when \<^verbatim>\<open>options\<close> is absent or an object whose properties are absent or of their
  documented types; \<open>validateYear\<close> and \<open>validateOdometer\<close> always return. \<open>validateBudget\<close>,
  and \<open>validatePartCosts\<close> on a costs object whose three fields are raw inputs, return
  when the toast argument is \<^verbatim>\<open>null\<close>, \<^verbatim>\<open>undefined\<close> or an object with a \<^verbatim>\<open>warning\<close> method.
  With the toast \<^verbatim>\<open>null\<close> or \<^verbatim>\<open>undefined\<close> the warning call is skipped: the result is the
  one returned with a sink present, the toast argument is left as it was, and the result
  is a failure exactly when a field is invalid (\<open>{isValid: false, values: null}\<close> for
  \<open>validatePartCosts\<close>, \<open>{isValid: false, value: 0}\<close> for \<open>validateBudget\<close>). A sink that
  is present receives one message on such a failure.
\<close>

theorem validators_return:
  "validatePositiveInteger_call L v f (optionsArg opts) =
     Inr (validatePositiveInteger L v f opts) \<and>
   validateYear_call L y v f = Inr (validateYear L y v f) \<and>
   validateOdometer_call L v f = Inr (validateOdometer L v f) \<and>
   validateBudget_call b (toastArg t) = Inr (map_prod id toastArg (validateBudget b t)) \<and>
   validatePartCosts_call (Val c) (toastArg t) =
     Inr (map_prod id toastArg (validatePartCosts c t)) \<and>
   validateBudget_call b Null = Inr (fst (validateBudget b None), Null) \<and>
   validatePartCosts_call (Val c) Null = Inr (fst (validatePartCosts c None), Null) \<and>
   validateBudget_call b Undefined = Inr (fst (validateBudget b None), Undefined) \<and>
   validatePartCosts_call (Val c) Undefined = Inr (fst (validatePartCosts c None), Undefined) \<and>
   fst (validateBudget b None) = fst (validateBudget b (Some sink)) \<and>
   fst (validatePartCosts c None) = fst (validatePartCosts c (Some sink)) \<and>
   isValid (fst (validateBudget b None)) = isValid (validateCurrency b (Some ''Budget'')) \<and>
   isValid (fst (validatePartCosts c None)) =
     (isValid (validateCurrency (price c) (Some ''Price'')) \<and>
      isValid (validateCurrency (shipping c) (Some ''Shipping'')) \<and>
      isValid (validateCurrency (duties c) (Some ''Duties''))) \<and>
   (\<not> isValid (fst (validateBudget b None)) \<longrightarrow>
      fst (validateBudget b None) = \<lparr>isValid = False, val = Fin 0\<rparr> \<and>
      snd (validateBudget b (Some sink)) =
        Some (sink @ [error (validateCurrency b (Some ''Budget''))])) \<and>
   (\<not> isValid (fst (validatePartCosts c None)) \<longrightarrow>
      fst (validatePartCosts c None) = \<lparr>isValid = False, vals = None\<rparr> \<and>
      (\<exists>msg. snd (validatePartCosts c (Some sink)) = Some (sink @ [Some msg])))"
proof -
  have u1: "validateBudget_call b Undefined = Inr (fst (validateBudget b None), Undefined)"
    using validateBudget_call_typed[of b None] by (simp add: toastArg_def validateBudget_def Let_def optWarning_def)
  have u2: "validatePartCosts_call (Val c) Undefined =
      Inr (fst (validatePartCosts c None), Undefined)"
    using validatePartCosts_call_typed[of c None]
    by (simp add: toastArg_def validatePartCosts_def Let_def optWarning_def)
  have s1: "fst (validateBudget b None) = fst (validateBudget b (Some sink))"
    by (simp add: validateBudget_def Let_def)
  have s2: "fst (validatePartCosts c None) = fst (validatePartCosts c (Some sink))"
    by (simp add: validatePartCosts_def Let_def)
  have v1: "isValid (fst (validateBudget b None)) = isValid (validateCurrency b (Some ''Budget''))"
    by (simp add: validateBudget_def Let_def)
  have v2: "isValid (fst (validatePartCosts c None)) =
     (isValid (validateCurrency (price c) (Some ''Price'')) \<and>
      isValid (validateCurrency (shipping c) (Some ''Shipping'')) \<and>
      isValid (validateCurrency (duties c) (Some ''Duties'')))"
    by (simp add: validatePartCosts_def Let_def)
  have f1: "\<not> isValid (fst (validateBudget b None)) \<longrightarrow>
      fst (validateBudget b None) = \<lparr>isValid = False, val = Fin 0\<rparr> \<and>
      snd (validateBudget b (Some sink)) =
        Some (sink @ [error (validateCurrency b (Some ''Budget''))])"
    by (simp add: validateBudget_def Let_def optWarning_def)
  have msg: "\<not> isValid (validateCurrency x g) \<Longrightarrow> \<exists>m. error (validateCurrency x g) = Some m"
    for x g
    by (simp add: validateCurrency_def Let_def split: if_splits)
  have f2: "\<not> isValid (fst (validatePartCosts c None)) \<longrightarrow>
      fst (validatePartCosts c None) = \<lparr>isValid = False, vals = None\<rparr> \<and>
      (\<exists>msg. snd (validatePartCosts c (Some sink)) = Some (sink @ [Some msg]))"
    using msg[of "price c" "Some ''Price''"] msg[of "shipping c" "Some ''Shipping''"]
      msg[of "duties c" "Some ''Duties''"]
    by (auto simp: validatePartCosts_def Let_def optWarning_def)
  show ?thesis
    using validatePositiveInteger_call_typed[of L v f opts] validateYear_call_typed[of L y v f]
      validateOdometer_call_typed[of L v f] validateBudget_call_typed[of b t]
      validatePartCosts_call_typed[of c t] validateBudget_call_Null[of b]
      validatePartCosts_call_Null[of c] u1 u2 s1 s2 v1 v2 f1 f2
    by (intro conjI)
qed

theorem validators_return_witness:
  "validateBudget_call (JStr ''abc'') Null =
     Inr (\<lparr>isValid = False, val = Fin 0\<rparr>, Null) \<and>
   validateBudget_call (JStr ''abc'') (Val (WithWarning [])) =
     Inr (\<lparr>isValid = False, val = Fin 0\<rparr>,
          Val (WithWarning [Some ''Budget must be a valid number''])) \<and>
   validatePartCosts_call
     (Val \<lparr>price = JStr ''10'', shipping = JStr ''5'', duties = JStr ''abc''\<rparr>) Undefined =
     Inr (\<lparr>isValid = False, vals = None\<rparr>, Undefined) \<and>
   validatePartCosts_call
     (Val \<lparr>price = JStr ''10'', shipping = JStr ''5'', duties = JStr ''abc''\<rparr>)
     (Val (WithWarning [])) =
     Inr (\<lparr>isValid = False, vals = None\<rparr>,
          Val (WithWarning [Some ''Duties must be a valid number''])) \<and>
   validatePositiveInteger_call numberToString (JStr ''42'') None Undefined =
     Inr \<lparr>isValid = True, val = Some (Fin 42), error = None\<rparr>"
proof -
  let ?c = "\<lparr>price = JStr ''10'', shipping = JStr ''5'', duties = JStr ''abc''\<rparr>"
  have p: "parseFloat (JStr ''10'') = Fin 10" "parseFloat (JStr ''5'') = Fin 5"
    "parseFloat (JStr ''abc'') = NaN" "parseInt10 (JStr ''42'') = Fin 42"
    by (simp_all add: parse_defs round64_numeral)
  have b: "validateCurrency (JStr ''abc'') (Some ''Budget'') =
      \<lparr>isValid = False, val = Fin 0, error = Some ''Budget must be a valid number''\<rparr>"
    by (simp add: validator_defs p)
  have c: "validatePartCosts ?c (Some []) =
      (\<lparr>isValid = False, vals = None\<rparr>, Some [Some ''Duties must be a valid number''])"
    "validatePartCosts ?c None = (\<lparr>isValid = False, vals = None\<rparr>, None)"
    by (simp_all add: validatePartCosts_def validator_defs Let_def optWarning_def p)
  have i: "validatePositiveInteger numberToString (JStr ''42'') None None =
      \<lparr>isValid = True, val = Some (Fin 42), error = None\<rparr>"
    by (simp add: validator_defs p)
  note t = validators_return
    [of numberToString "JStr ''42''" None None "Fin 2026" "JStr ''abc''" "Some []" ?c "[]"]
  from t have "validateBudget_call (JStr ''abc'') Null =
     Inr (\<lparr>isValid = False, val = Fin 0\<rparr>, Null)"
    by (simp add: validateBudget_def Let_def b)
  moreover from t have "validateBudget_call (JStr ''abc'') (Val (WithWarning [])) =
     Inr (\<lparr>isValid = False, val = Fin 0\<rparr>,
          Val (WithWarning [Some ''Budget must be a valid number'']))"
    by (simp add: validateBudget_def Let_def b toastArg_def optWarning_def)
  moreover from t have "validatePartCosts_call (Val ?c) Undefined =
     Inr (\<lparr>isValid = False, vals = None\<rparr>, Undefined)"
    by (simp add: c)
  moreover from t have "validatePartCosts_call (Val ?c) (Val (WithWarning [])) =
     Inr (\<lparr>isValid = False, vals = None\<rparr>,
          Val (WithWarning [Some ''Duties must be a valid number'']))"
    by (simp add: c toastArg_def)
  moreover from t have "validatePositiveInteger_call numberToString (JStr ''42'') None Undefined =
     Inr \<lparr>isValid = True, val = Some (Fin 42), error = None\<rparr>"
    by (simp add: i optionsArg_def)
  ultimately show ?thesis by blast
qed

end
